theory Spec2Isabelle
  imports Main "HOL-Library.Word"
begin

unbundle bit_operations_syntax

section \<open>Bytes, words and memory\<close>

text \<open>
  The image is a byte buffer; a C pointer into it is the buffer together with an index.
  Offsets and sizes of \<^verbatim>\<open>nislib.c\<close> are C \<^verbatim>\<open>long\<close> values and are modelled as
  \<^typ>\<open>int\<close>; the 32-bit quantities (\<^verbatim>\<open>uint32_t\<close>) are \<^typ>\<open>32 word\<close> and wrap around.
  Pointer arguments are taken to be non-null, so the \<^verbatim>\<open>!buf\<close> tests of the source have
  no counterpart here.
\<close>

type_synonym u8 = "8 word"
type_synonym u32 = "32 word"

text \<open>\<^verbatim>\<open>reconst_32\<close> (nislib.c, lines 10-14): the four bytes at \<open>buf + p\<close>, big-endian.\<close>

definition reconst_32 :: "u8 list \<Rightarrow> nat \<Rightarrow> u32" where
  "reconst_32 buf p =
     push_bit 24 (ucast (buf ! p)) OR push_bit 16 (ucast (buf ! (p + 1)))
       OR push_bit 8 (ucast (buf ! (p + 2))) OR ucast (buf ! (p + 3))"

text \<open>
  \<^verbatim>\<open>write_32b\<close> (nislib.c, lines 20-33): starts at the last of the four bytes and walks
  down, shifting the value right by 8 after each store.
\<close>

definition write_32b :: "u32 \<Rightarrow> u8 list \<Rightarrow> nat \<Rightarrow> u8 list" where
  "write_32b val buf p =
     (let buf1 = buf[p + 3 := ucast (val AND 0xFF)];
          val1 = drop_bit 8 val;
          buf2 = buf1[p + 2 := ucast (val1 AND 0xFF)];
          val2 = drop_bit 8 val1;
          buf3 = buf2[p + 1 := ucast (val2 AND 0xFF)];
          val3 = drop_bit 8 val2
      in buf3[p := ucast (val3 AND 0xFF)])"

text \<open>
  C gives no meaning to an access outside the allocated buffer, nor to the use of a
  variable that was never assigned. Both are results of their own here, so that a run
  of the model that returns a value is a run of the program without either.
\<close>

datatype fault = OutOfBounds | Uninitialised

definition fbind :: "fault + 'a \<Rightarrow> ('a \<Rightarrow> fault + 'b) \<Rightarrow> fault + 'b" where
  "fbind m f = (case m of Inl e \<Rightarrow> Inl e | Inr x \<Rightarrow> f x)"

text \<open>\<^verbatim>\<open>reconst_32(&buf[p])\<close> and \<^verbatim>\<open>write_32b(val, &buf[p])\<close> with the bounds of the buffer.\<close>

definition rd32 :: "u8 list \<Rightarrow> int \<Rightarrow> fault + u32" where
  "rd32 buf p =
     (if 0 \<le> p \<and> p + 4 \<le> int (length buf) then Inr (reconst_32 buf (nat p))
      else Inl OutOfBounds)"

definition wr32 :: "u32 \<Rightarrow> u8 list \<Rightarrow> int \<Rightarrow> fault + u8 list" where
  "wr32 val buf p =
     (if 0 \<le> p \<and> p + 4 \<le> int (length buf) then Inr (write_32b val buf (nat p))
      else Inl OutOfBounds)"

text \<open>Reading a \<^verbatim>\<open>long\<close> that may never have been assigned.\<close>

definition rd_var :: "int option \<Rightarrow> fault + int" where
  "rd_var v = (case v of None \<Rightarrow> Inl Uninitialised | Some x \<Rightarrow> Inr x)"

section \<open>checksum\_std\<close>

text \<open>
  The two \<^verbatim>\<open>printf\<close> warnings of \<^verbatim>\<open>checksum_std\<close>, and what the function leaves behind:
  its return value and the two output variables \<^verbatim>\<open>*p_cks\<close>, \<^verbatim>\<open>*p_ckx\<close> (\<open>None\<close>
  while never assigned).
\<close>

datatype msg = WarnMultiple | WarnNone

record std_result =
  ret :: int
  o_cks :: "int option"
  o_ckx :: "int option"
  warnings :: "msg list"

text \<open>First loop (lines 51-59): sum and xor of every big-endian word below \<open>siz\<close>.\<close>

function std_sum :: "u8 list \<Rightarrow> int \<Rightarrow> int \<Rightarrow> u32 \<Rightarrow> u32 \<Rightarrow> fault + (u32 \<times> u32)" where
  "std_sum buf siz bufcur sumt xort =
     (if bufcur < siz then
        (case rd32 buf bufcur of
           Inl e \<Rightarrow> Inl e
         | Inr lw \<Rightarrow> std_sum buf siz (bufcur + 4) (sumt + lw) (xort XOR lw))
      else Inr (sumt, xort))"
  by pat_completeness auto
termination
  by (relation "measure (\<lambda>(buf, siz, bufcur, sumt, xort). nat (siz - bufcur))") auto

declare std_sum.simps [simp del]

text \<open>Lines 51-62: the fold, then \<^verbatim>\<open>cks = xort\<close> and \<^verbatim>\<open>ckx = sumt - 2*xort\<close>.\<close>

definition std_targets :: "u8 list \<Rightarrow> int \<Rightarrow> fault + (u32 \<times> u32)" where
  "std_targets buf siz =
     fbind (std_sum buf siz 0 0 0) (\<lambda>(sumt, xort).
       let cks = xort; ckx = sumt - 2 * xort in Inr (cks, ckx))"

text \<open>
  Second loop (lines 65-80): every word equal to \<open>cks\<close> overwrites \<^verbatim>\<open>*p_cks\<close> and
  counts, and the same for \<open>ckx\<close>. The two counters are C \<^verbatim>\<open>int\<close>s that only count up
  from 0, once per word at most; they are natural numbers here, which is the same as
  long as the image has fewer than \<open>2 ^ 31\<close> words.
\<close>

function std_scan ::
  "u8 list \<Rightarrow> int \<Rightarrow> u32 \<Rightarrow> u32 \<Rightarrow> int \<Rightarrow> int option \<Rightarrow> int option \<Rightarrow> nat \<Rightarrow> nat
     \<Rightarrow> fault + (int option \<times> int option \<times> nat \<times> nat)" where
  "std_scan buf siz cks ckx bufcur p_cks p_ckx ckscount ckxcount =
     (if bufcur < siz then
        (case rd32 buf bufcur of
           Inl e \<Rightarrow> Inl e
         | Inr lw \<Rightarrow>
             std_scan buf siz cks ckx (bufcur + 4)
               (if lw = cks then Some bufcur else p_cks)
               (if lw = ckx then Some bufcur else p_ckx)
               (if lw = cks then ckscount + 1 else ckscount)
               (if lw = ckx then ckxcount + 1 else ckxcount))
      else Inr (p_cks, p_ckx, ckscount, ckxcount))"
  by pat_completeness auto
termination
  by (relation "measure (\<lambda>(buf, siz, cks, ckx, bufcur, r). nat (siz - bufcur))") auto

declare std_scan.simps [simp del]

text \<open>Lines 65-90: the scan, the warnings and the return value.\<close>

definition std_locate ::
  "u8 list \<Rightarrow> int \<Rightarrow> u32 \<Rightarrow> u32 \<Rightarrow> int option \<Rightarrow> int option \<Rightarrow> fault + std_result" where
  "std_locate buf siz cks ckx p_cks p_ckx =
     fbind (std_scan buf siz cks ckx 0 p_cks p_ckx 0 0) (\<lambda>(pc, px, ckscount, ckxcount).
       let w = (if ckxcount > 1 \<or> ckscount > 1 then [WarnMultiple] else []) in
       if ckxcount = 0 \<and> ckscount = 0
       then Inr \<lparr>ret = - 1, o_cks = pc, o_ckx = px, warnings = w @ [WarnNone]\<rparr>
       else Inr \<lparr>ret = 0, o_cks = pc, o_ckx = px, warnings = w\<rparr>)"

text \<open>
  \<^verbatim>\<open>checksum_std\<close> (lines 42-91). \<open>p_cks\<close> and \<open>p_ckx\<close> are the contents of the two output
  variables when the function is called.
\<close>

definition checksum_std ::
  "u8 list \<Rightarrow> int \<Rightarrow> int option \<Rightarrow> int option \<Rightarrow> fault + std_result" where
  "checksum_std buf siz p_cks p_ckx =
     (if siz \<le> 0 then Inr \<lparr>ret = - 1, o_cks = p_cks, o_ckx = p_ckx, warnings = []\<rparr>
      else fbind (std_targets buf siz) (\<lambda>(cks, ckx). std_locate buf siz cks ckx p_cks p_ckx))"

section \<open>checksum\_fix\<close>

text \<open>Second step (lines 121-129): sum and xor of every word but those at \<open>p_cks\<close>, \<open>p_ckx\<close>.\<close>

function fix_sum ::
  "u8 list \<Rightarrow> int \<Rightarrow> int \<Rightarrow> int \<Rightarrow> int \<Rightarrow> u32 \<Rightarrow> u32 \<Rightarrow> fault + (u32 \<times> u32)" where
  "fix_sum buf siz p_cks p_ckx cur ds dx =
     (if cur < siz then
        (if cur = p_cks \<or> cur = p_ckx then fix_sum buf siz p_cks p_ckx (cur + 4) ds dx
         else
           (case rd32 buf cur of
              Inl e \<Rightarrow> Inl e
            | Inr tw \<Rightarrow> fix_sum buf siz p_cks p_ckx (cur + 4) (ds + tw) (dx XOR tw)))
      else Inr (ds, dx))"
  by pat_completeness auto
termination
  by (relation "measure (\<lambda>(buf, siz, p_cks, p_ckx, cur, ds, dx). nat (siz - cur))") auto

declare fix_sum.simps [simp del]

text \<open>The variables of the bit iteration (lines 135-143).\<close>

record solver =
  s_ds :: u32
  s_dx :: u32
  s_mang :: u32
  s_a :: u32
  s_b :: u32
  s_carry :: bool

text \<open>
  The body of the \<^verbatim>\<open>for\<close> loop at bit position \<open>bitcur\<close> (lines 154-198). \<open>None\<close> is the
  \<^verbatim>\<open>return\<close> of line 166; the statements after it (lines 167-179) are never executed
  and have no counterpart. \<^verbatim>\<open>carry = ~sn\<close> complements the \<^verbatim>\<open>int\<close> value of the \<^verbatim>\<open>bool\<close>
  and converts the result back to \<^verbatim>\<open>bool\<close>.
\<close>

definition bit_step :: "int \<Rightarrow> solver \<Rightarrow> solver option" where
  "bit_step bitcur s =
     (let xn = (s_dx s AND push_bit (nat bitcur) 1 \<noteq> 0);
          sn = (s_ds s AND push_bit (nat bitcur) 1 \<noteq> 0)
      in
        if xn then
          (if s_carry s then
             (if sn then None
              else Some (s\<lparr>s_carry := True,
                           s_a := s_a s OR push_bit (nat bitcur) 1,
                           s_b := s_b s OR push_bit (nat bitcur) 0\<rparr>))
           else Some (s\<lparr>s_carry := (NOT (of_bool sn :: int) \<noteq> 0),
                        s_a := s_a s OR push_bit (nat bitcur) 1,
                        s_b := s_b s OR push_bit (nat bitcur) 0\<rparr>))
        else
          Some (s\<lparr>s_carry := sn,
                   s_a := s_a s OR push_bit (nat bitcur) (of_bool (s_carry s)),
                   s_b := s_b s OR push_bit (nat bitcur) (of_bool (s_carry s))\<rparr>))"

text \<open>\<^verbatim>\<open>for (bitcur = 31; bitcur >= 0; bitcur --)\<close>, entered at \<open>bitcur\<close>.\<close>

function fix_loop :: "int \<Rightarrow> solver \<Rightarrow> solver option" where
  "fix_loop bitcur s =
     (if bitcur \<ge> 0 then
        (case bit_step bitcur s of
           None \<Rightarrow> None
         | Some s' \<Rightarrow> fix_loop (bitcur - 1) s')
      else Some s)"
  by pat_completeness auto
termination
  by (relation "measure (\<lambda>(bitcur, s). nat (bitcur + 1))") auto

declare fix_loop.simps [simp del]

text \<open>
  The ways \<^verbatim>\<open>checksum_fix\<close> returns: the argument check of lines 107-109, the
  \<^verbatim>\<open>return\<close> inside the bit iteration (line 166), and the two outcomes of the final
  verification (lines 209-213).
\<close>

datatype fix_exit = Aborted | Infeasible | Fixed | NotFixed

text \<open>
  Lines 205-213: \<^verbatim>\<open>ocs\<close> and \<^verbatim>\<open>ocx\<close> are fresh locals, \<^verbatim>\<open>checksum_std\<close>'s return value
  is dropped, and the words at the two offsets are compared with the targets.
\<close>

definition fix_verify :: "u8 list \<Rightarrow> int \<Rightarrow> u32 \<Rightarrow> u32 \<Rightarrow> fault + (fix_exit \<times> u8 list)" where
  "fix_verify buf siz cks ckx =
     fbind (checksum_std buf siz None None) (\<lambda>r.
     fbind (rd_var (o_cks r)) (\<lambda>ocs.
     fbind (rd32 buf ocs) (\<lambda>ds.
     fbind (rd_var (o_ckx r)) (\<lambda>ocx.
     fbind (rd32 buf ocx) (\<lambda>dx.
       if ds = cks \<and> dx = ckx then Inr (Fixed, buf) else Inr (NotFixed, buf))))))"

text \<open>
  Lines 135-199: the corrections wanted for the sum and the xor, the mangler, and the
  bit iteration from bit 31 down. \<open>ds0\<close> and \<open>dx0\<close> are the sum and xor just computed.
\<close>

definition fix_solve :: "u32 \<Rightarrow> u32 \<Rightarrow> u32 \<Rightarrow> u32 \<Rightarrow> solver option" where
  "fix_solve cks ckx ds0 dx0 =
     (let ds1 = cks - ds0;
          dx1 = ckx XOR dx0;
          mang = dx1;
          ds2 = ds1 - mang;
          dx2 = dx1 XOR mang
      in fix_loop 31 \<lparr>s_ds = ds2, s_dx = dx2, s_mang = mang,
                        s_a = 0, s_b = 0, s_carry = False\<rparr>)"

text \<open>\<^verbatim>\<open>checksum_fix\<close> (lines 98-216); the result is how it returned and the buffer then.\<close>

definition checksum_fix ::
  "u8 list \<Rightarrow> int \<Rightarrow> int \<Rightarrow> int \<Rightarrow> int \<Rightarrow> int \<Rightarrow> int \<Rightarrow> fault + (fix_exit \<times> u8 list)" where
  "checksum_fix buf siz p_cks p_ckx p_cs p_cx p_mang =
     (if siz \<le> 0 \<or> siz AND 3 \<noteq> 0 \<or> p_cks \<ge> siz \<or> p_ckx \<ge> siz \<or> p_cs \<ge> siz \<or> p_cx \<ge> siz
      then Inr (Aborted, buf)
      else
        fbind (rd32 buf p_cks) (\<lambda>cks.
        fbind (rd32 buf p_ckx) (\<lambda>ckx.
        fbind (wr32 0 buf p_cs) (\<lambda>buf1.
        fbind (wr32 0 buf1 p_cx) (\<lambda>buf2.
        fbind (wr32 0 buf2 p_mang) (\<lambda>buf3.
        fbind (fix_sum buf3 siz p_cks p_ckx 0 0 0) (\<lambda>(ds0, dx0).
          (case fix_solve cks ckx ds0 dx0 of
             None \<Rightarrow> Inr (Infeasible, buf3)
           | Some s \<Rightarrow>
               fbind (wr32 (s_a s) buf3 p_cs) (\<lambda>buf4.
               fbind (wr32 (s_b s) buf4 p_cx) (\<lambda>buf5.
               fbind (wr32 (s_mang s) buf5 p_mang) (\<lambda>buf6.
                 fix_verify buf6 siz cks ckx)))))))))))"

section \<open>The analysis record of nisrom.c\<close>

text \<open>
  Modelled from the spec: the feature bits and \<^verbatim>\<open>struct fidtype_t\<close> are declared in
  \<^verbatim>\<open>nissan_romdefs.h\<close>, which is not among the sources. The feature mask is a set of
  flags, so that \<^verbatim>\<open>features & ROM_HAS_ALTCKS\<close> is membership; of the descriptor only the
  fields used below are kept: the RAMF header sentinel, the maximum search distance for
  RAMF (its C type is not known; it is compared with a \<^verbatim>\<open>long\<close>), and the fields
  \<^verbatim>\<open>find_ecurec\<close> reads: the expected IVT2 address, the ROM size and the offsets of
  \<^verbatim>\<open>pIVT2\<close>, \<^verbatim>\<open>pROMend\<close>, \<^verbatim>\<open>packs_start\<close> and \<^verbatim>\<open>packs_end\<close> within the record, taken to be
  32-bit like the \<^verbatim>\<open>rom_offset\<close> values they are combined with.
\<close>

datatype feature = ROM_HAS_STDCKS | ROM_HAS_ALTCKS | ROM_HAS_ALT2CKS | ROM_HAS_ECUREC | ROM_HAS_IVT2

record fidtype =
  ft_features :: "feature set"
  ft_RAMF_header :: u32
  ft_pRAMF_maxdist :: int
  ft_IVT2_expected :: u32
  ft_ROMsize :: u32
  ft_pIVT2 :: u32
  ft_pROMend :: u32
  ft_packs_start :: u32
  ft_packs_end :: u32

text \<open>
  \<^verbatim>\<open>struct romfile\<close> (nisrom.c, lines 48-99), the fields the search for RAMF and the
  alternate checksum read or write. Offsets (\<^verbatim>\<open>rom_offset\<close>, \<^verbatim>\<open>u32\<close>) are 32-bit words
  with \<open>- 1\<close> as \<^verbatim>\<open>UINT32_MAX\<close>; \<^verbatim>\<open>rf->x\<close> is written \<open>rf_x\<close>. \<open>fid_ic\<close> is a value of
  \<^verbatim>\<open>enum fidtype_ic\<close>, an integer.
\<close>

record romfile =
  rf_buf :: "u8 list"
  rf_siz :: u32
  rf_fid_ic :: int
  rf_fidtype :: fidtype
  rf_p_fid :: u32
  rf_sfid_size :: u32
  rf_p_ramf :: u32
  rf_ramf_offset :: int
  rf_p_acs :: u32
  rf_p_acx :: u32
  rf_p_ivt2 :: u32
  rf_p_acstart :: u32
  rf_p_acend :: u32
  rf_p_ecurec :: u32
  rf_cks_alt_good :: bool

text \<open>
  The record as \<^verbatim>\<open>struct romfile rf = {0}\<close> (line 1011) and the stages before
  \<^verbatim>\<open>find_ramf\<close> leave it: image and size loaded, descriptor selected, \<open>p_fid\<close> and
  \<open>sfid_size\<close> set, everything else zero (for \<open>fid_ic\<close>, the first enumerator).
\<close>

definition fresh_rom :: "u8 list \<Rightarrow> fidtype \<Rightarrow> u32 \<Rightarrow> u32 \<Rightarrow> romfile" where
  "fresh_rom img ft pfid sfid =
     \<lparr>rf_buf = img, rf_siz = of_nat (length img), rf_fid_ic = 0, rf_fidtype = ft,
      rf_p_fid = pfid, rf_sfid_size = sfid, rf_p_ramf = 0, rf_ramf_offset = 0,
      rf_p_acs = 0, rf_p_acx = 0, rf_p_ivt2 = 0, rf_p_acstart = 0, rf_p_acend = 0,
      rf_p_ecurec = 0, rf_cks_alt_good = False\<rparr>"

text \<open>
  A descriptor of a ROM type with a RAMF structure and no ECUREC record: the fields that
  only \<^verbatim>\<open>find_ecurec\<close> reads are zero.
\<close>

definition ramf_fidtype :: "feature set \<Rightarrow> u32 \<Rightarrow> int \<Rightarrow> fidtype" where
  "ramf_fidtype features header maxdist =
     \<lparr>ft_features = features, ft_RAMF_header = header, ft_pRAMF_maxdist = maxdist,
      ft_IVT2_expected = 0, ft_ROMsize = 0, ft_pIVT2 = 0, ft_pROMend = 0,
      ft_packs_start = 0, ft_packs_end = 0\<rparr>"

section \<open>The two helpers of nislib.h without a body\<close>

text \<open>
  Modelled from the spec: \<^verbatim>\<open>sum32\<close> is declared in \<^verbatim>\<open>nislib.h\<close> and its body is not among
  the sources. By the specification it reads the buffer as a sequence of big-endian
  32-bit words and returns the wrapping sum and the xor of all of them, ignoring excess
  bytes. \<open>start\<close> is the index the pointer argument points to.
\<close>

function sum32_from ::
  "u8 list \<Rightarrow> nat \<Rightarrow> nat \<Rightarrow> nat \<Rightarrow> u32 \<Rightarrow> u32 \<Rightarrow> fault + (u32 \<times> u32)" where
  "sum32_from buf start len cur s x =
     (if cur + 4 \<le> len then
        (case rd32 buf (int (start + cur)) of
           Inl e \<Rightarrow> Inl e
         | Inr w \<Rightarrow> sum32_from buf start len (cur + 4) (s + w) (x XOR w))
      else Inr (s, x))"
  by pat_completeness auto
termination
  by (relation "measure (\<lambda>(buf, start, len, cur, s, x). len - cur)") auto

declare sum32_from.simps [simp del]

definition sum32 :: "u8 list \<Rightarrow> nat \<Rightarrow> nat \<Rightarrow> fault + (u32 \<times> u32)" where
  "sum32 buf start len = sum32_from buf start len 0 0 0"

text \<open>
  Modelled from the spec: \<^verbatim>\<open>u32memstr\<close> is declared in \<^verbatim>\<open>nislib.h\<close> and its body is not
  among the sources. By the specification it searches \<open>buflen\<close> bytes for a 32-bit
  aligned word equal to the needle, never reads past the length, and returns the first
  match, or nothing (\<^verbatim>\<open>NULL\<close>).
\<close>

function u32memstr_from :: "u8 list \<Rightarrow> nat \<Rightarrow> u32 \<Rightarrow> nat \<Rightarrow> fault + nat option" where
  "u32memstr_from buf buflen needle cur =
     (if cur + 4 \<le> buflen then
        (case rd32 buf (int cur) of
           Inl e \<Rightarrow> Inl e
         | Inr w \<Rightarrow> if w = needle then Inr (Some cur)
                   else u32memstr_from buf buflen needle (cur + 4))
      else Inr None)"
  by pat_completeness auto
termination
  by (relation "measure (\<lambda>(buf, buflen, needle, cur). buflen - cur)") auto

declare u32memstr_from.simps [simp del]

definition u32memstr :: "u8 list \<Rightarrow> nat \<Rightarrow> u32 \<Rightarrow> fault + nat option" where
  "u32memstr buf buflen needle = u32memstr_from buf buflen needle 0"

section \<open>find\_ecurec\<close>

text \<open>
  Lines 444-453 of \<^verbatim>\<open>find_ecurec\<close> (nisrom.c), for a candidate found at offset
  \<open>temp_ivt2\<close>: the record would start at \<open>pp_ecurec\<close>, and it is accepted when its ROMEND
  field lies inside the image and holds the ROM size less one.
\<close>

definition ecurec_accepts :: "romfile \<Rightarrow> u32 \<Rightarrow> fault + bool" where
  "ecurec_accepts rf temp_ivt2 =
     (let ft = rf_fidtype rf;
          pp_ecurec = temp_ivt2 - ft_pIVT2 ft;
          p_romend = pp_ecurec + ft_pROMend ft
      in
        if p_romend \<ge> rf_siz rf - 4 then Inr False
        else fbind (rd32 (rf_buf rf) (uint p_romend)) (\<lambda>romend.
               Inr (romend + 1 = ft_ROMsize ft)))"

text \<open>
  The \<^verbatim>\<open>for\<close> loop of lines 437-457, entered with \<open>start_offs\<close>; the pointer
  \<^verbatim>\<open>&rf->buf[start_offs]\<close> is the rest of the buffer from that index. The result is
  \<open>pp_ecurec\<close> of the candidate accepted, if any. The subtractions on \<^verbatim>\<open>u32\<close> wrap, so
  the loop is not bounded from its text alone, and not returning is a value of its own.
\<close>

partial_function (option) ecurec_loop :: "romfile \<Rightarrow> u32 \<Rightarrow> (fault + u32 option) option" where
  "ecurec_loop rf start_offs =
     (if start_offs < rf_siz rf - 100 then
        (case u32memstr (drop (unat start_offs) (rf_buf rf)) (unat (rf_siz rf - start_offs))
                (ft_IVT2_expected (rf_fidtype rf)) of
           Inl e \<Rightarrow> Some (Inl e)
         | Inr None \<Rightarrow> Some (Inr None)
         | Inr (Some r) \<Rightarrow>
             (case ecurec_accepts rf (of_nat (unat start_offs + r)) of
                Inl e \<Rightarrow> Some (Inl e)
              | Inr found \<Rightarrow>
                  if found
                  then Some (Inr (Some (of_nat (unat start_offs + r) - ft_pIVT2 (rf_fidtype rf))))
                  else ecurec_loop rf (of_nat (unat start_offs + r) + 4)))
      else Some (Inr None))"

text \<open>\<^verbatim>\<open>find_ecurec\<close> (lines 423-467): whether the record was found, and the romfile.\<close>

definition find_ecurec :: "romfile \<Rightarrow> (fault + bool \<times> romfile) option" where
  "find_ecurec rf =
     (let ft = rf_fidtype rf in
      if ROM_HAS_ECUREC \<notin> ft_features ft then Some (Inr (False, rf))
      else
        (case ecurec_loop rf 0 of
           None \<Rightarrow> None
         | Some (Inl e) \<Rightarrow> Some (Inl e)
         | Some (Inr None) \<Rightarrow> Some (Inr (False, rf))
         | Some (Inr (Some pp_ecurec)) \<Rightarrow>
             Some (fbind (rd32 (rf_buf rf) (uint (pp_ecurec + ft_packs_start ft))) (\<lambda>acstart.
                   fbind (rd32 (rf_buf rf) (uint (pp_ecurec + ft_packs_end ft))) (\<lambda>acend.
                   fbind (rd32 (rf_buf rf) (uint pp_ecurec)) (\<lambda>ecurec.
                     Inr (True, rf\<lparr>rf_p_ivt2 := ft_IVT2_expected ft,
                                     rf_p_acstart := acstart, rf_p_acend := acend,
                                     rf_p_ecurec := ecurec\<rparr>)))))))"

section \<open>find\_ramf: the search for the RAMF header\<close>

text \<open>
  The \<^verbatim>\<open>while\<close> loop of lines 511-528, entered with \<open>ramf_adj\<close> and \<open>sign\<close>. The index
  \<^verbatim>\<open>rf->p_ramf + (sign * ramf_adj)\<close> is computed in \<^verbatim>\<open>long\<close>. The result is the delta of
  the probe that matched, if any; the loop need not terminate for every \<open>sign\<close>, so not
  returning is a value of its own.
\<close>

partial_function (option) ramf_sweep ::
  "u8 list \<Rightarrow> u32 \<Rightarrow> u32 \<Rightarrow> int \<Rightarrow> int \<Rightarrow> int \<Rightarrow> (fault + int option) option" where
  "ramf_sweep buf p_ramf header maxdist ramf_adj sign =
     (if ramf_adj < maxdist then
        (case rd32 buf (uint p_ramf + sign * ramf_adj) of
           Inl e \<Rightarrow> Some (Inl e)
         | Inr testval \<Rightarrow>
             if testval = header then Some (Inr (Some (sign * ramf_adj)))
             else if ramf_adj < 0x0c then
               ramf_sweep buf p_ramf header maxdist
                 (if - sign = 1 then ramf_adj + 4 else ramf_adj) (- sign)
             else ramf_sweep buf p_ramf header maxdist (ramf_adj + 4) 1)
      else Some (Inr None))"

text \<open>
  \<^verbatim>\<open>find_ramf\<close> from its entry to line 529. It either returns early, with the value given
  (\<open>- 1\<close> when no descriptor is selected or \<open>p_fid\<close> is unknown, lines 483-487; 0 when the
  descriptor has no RAMF header and no ECUREC was found, lines 493-502), or goes on to
  \<^verbatim>\<open>parse_ramf\<close> at line 532 with the romfile as it then is.
\<close>

datatype ramf_outcome = Returned u32 romfile | Proceed romfile

text \<open>
  \<open>FID_UNK\<close> and \<open>FID_MAX\<close> are enumerators of \<^verbatim>\<open>enum fidtype_ic\<close>, declared in
  \<^verbatim>\<open>nissan_romdefs.h\<close> which is not among the sources; they are parameters. With a RAMF
  header in the descriptor (lines 503-529): the expected position, the test of the word
  there and, on a mismatch, the sweep; a match records the delta and moves \<open>p_ramf\<close>.
\<close>

definition find_ramf_header :: "int \<Rightarrow> int \<Rightarrow> romfile \<Rightarrow> (fault + ramf_outcome) option" where
  "find_ramf_header FID_UNK FID_MAX rf0 =
     (if rf_fid_ic rf0 = FID_UNK \<or> rf_fid_ic rf0 \<ge> FID_MAX \<or> rf_p_fid rf0 = - 1
      then Some (Inr (Returned (- 1) rf0))
      else
        (let rf = rf0\<lparr>rf_p_ramf := rf_p_fid rf0 + rf_sfid_size rf0\<rparr>;
             ft = rf_fidtype rf
         in
           if ft_RAMF_header ft = 0 then
             (case (if ROM_HAS_ECUREC \<in> ft_features ft then find_ecurec rf
                    else Some (Inr (False, rf))) of
                None \<Rightarrow> None
              | Some (Inl e) \<Rightarrow> Some (Inl e)
              | Some (Inr (found_stuff, rf1)) \<Rightarrow>
                  if \<not> found_stuff then Some (Inr (Returned 0 rf1))
                  else Some (Inr (Proceed rf1)))
           else
             (case rd32 (rf_buf rf) (uint (rf_p_ramf rf)) of
                Inl e \<Rightarrow> Some (Inl e)
              | Inr testval \<Rightarrow>
                  if testval \<noteq> ft_RAMF_header ft then
                    (case ramf_sweep (rf_buf rf) (rf_p_ramf rf) (ft_RAMF_header ft)
                            (ft_pRAMF_maxdist ft) 4 1 of
                       None \<Rightarrow> None
                     | Some (Inl e) \<Rightarrow> Some (Inl e)
                     | Some (Inr None) \<Rightarrow> Some (Inr (Proceed rf))
                     | Some (Inr (Some d)) \<Rightarrow>
                         Some (Inr (Proceed (rf\<lparr>rf_ramf_offset := d,
                                                rf_p_ramf := rf_p_ramf rf + word_of_int d\<rparr>))))
                  else Some (Inr (Proceed rf)))))"

text \<open>
  Probing a given list of deltas in order, up to the first whose word equals the header:
  the form in which the order of the sweep is stated. \<open>claimed_probes\<close> follows the
  words of the specification (\<open>+4, -4, +8, -8, +12, -12, +16, +20, ...\<close>, magnitudes
  below the maximum distance); \<open>sweep_probes\<close> is the order the loop is shown to have.
\<close>

fun probe_in_order :: "u8 list \<Rightarrow> u32 \<Rightarrow> u32 \<Rightarrow> int list \<Rightarrow> fault + int option" where
  "probe_in_order buf p header [] = Inr None"
| "probe_in_order buf p header (d # ds) =
     (case rd32 buf (uint p + d) of
        Inl e \<Rightarrow> Inl e
      | Inr w \<Rightarrow> if w = header then Inr (Some d) else probe_in_order buf p header ds)"

definition claimed_probes :: "int \<Rightarrow> int list" where
  "claimed_probes maxdist =
     filter (\<lambda>d. \<bar>d\<bar> < maxdist)
       ([4, - 4, 8, - 8, 12, - 12] @ map (\<lambda>k. 4 * int k) [4..<nat ((maxdist + 3) div 4)])"

definition sweep_probes :: "int \<Rightarrow> int list" where
  "sweep_probes maxdist =
     filter (\<lambda>d. \<bar>d\<bar> < maxdist)
       ([4, - 4, 8, - 8] @ map (\<lambda>k. 4 * int k) [3..<nat ((maxdist + 3) div 4)])"

section \<open>validate\_altcks\<close>

text \<open>
  \<^verbatim>\<open>validate_altcks\<close> (nisrom.c, lines 372-416): the return value and the record.
  \<^verbatim>\<open>~0x03\<close> is converted to \<^verbatim>\<open>u32\<close> before the \<^verbatim>\<open>&\<close>.
\<close>

definition validate_altcks :: "romfile \<Rightarrow> fault + (int \<times> romfile)" where
  "validate_altcks rf =
     (if ROM_HAS_ALTCKS \<notin> ft_features (rf_fidtype rf) then Inr (- 1, rf)
      else if rf_p_acstart rf = - 1 \<or> rf_p_acend rf = - 1 \<or>
              rf_p_acstart rf \<ge> rf_p_acend rf then Inr (- 1, rf)
      else
        (let altcs_bsize = (((rf_p_acend rf + 1) - rf_p_acstart rf) AND NOT 3) + 4 in
         fbind (sum32 (rf_buf rf) (unat (rf_p_acstart rf)) (unat altcs_bsize)) (\<lambda>(acs, acx).
         fbind (u32memstr (rf_buf rf) (unat (rf_siz rf)) acs) (\<lambda>pacs.
         fbind (u32memstr (rf_buf rf) (unat (rf_siz rf)) acx) (\<lambda>pacx.
           (case (pacs, pacx) of
              (Some a, Some b) \<Rightarrow>
                Inr (0, rf\<lparr>rf_p_acs := of_nat a, rf_p_acx := of_nat b,
                           rf_cks_alt_good := True\<rparr>)
            | _ \<Rightarrow> Inr (- 1, rf)))))))"

text \<open>Lines 534-546 of \<^verbatim>\<open>find_ramf\<close>: the bounds of the block, then the validation.\<close>

definition find_ramf_altcks :: "romfile \<Rightarrow> fault + romfile" where
  "find_ramf_altcks rf =
     (if ROM_HAS_ALTCKS \<in> ft_features (rf_fidtype rf) then
        (let rf1 = (if rf_p_acstart rf \<ge> rf_siz rf \<or> rf_p_acend rf \<ge> rf_siz rf \<or>
                       rf_p_acstart rf \<ge> rf_p_acend rf
                    then rf\<lparr>rf_p_acstart := - 1, rf_p_acend := - 1\<rparr> else rf)
         in if rf_p_acstart rf1 \<noteq> - 1
            then fbind (validate_altcks rf1) (\<lambda>(r, rf2). Inr rf2)
            else Inr rf1)
      else Inr rf)"

section \<open>The image as a list of words\<close>

text \<open>
  The vocabulary in which the results below are stated: the buffer read as consecutive
  big-endian words (bytes after the last whole word are not part of any), the xor of a
  list of words, and the offset a scan that overwrites its result at every match ends
  with (\<open>k\<close> is the index of the first word of the list, \<open>acc\<close> the result so far).
\<close>

definition be_words :: "u8 list \<Rightarrow> u32 list" where
  "be_words buf = map (\<lambda>i. reconst_32 buf (4 * i)) [0..<length buf div 4]"

definition xor_words :: "u32 list \<Rightarrow> u32" where
  "xor_words ws = foldr (XOR) ws 0"

fun pick_last :: "u32 \<Rightarrow> u32 list \<Rightarrow> nat \<Rightarrow> int option \<Rightarrow> int option" where
  "pick_last v [] k acc = acc"
| "pick_last v (w # ws) k acc = pick_last v ws (Suc k) (if w = v then Some (4 * int k) else acc)"

text \<open>
  What an iteration from bit \<open>n\<close> down to bit 0 adds to \<open>a\<close> (and to \<open>b\<close>) while the xor
  target is 0: the incoming carry at bit \<open>n\<close>, and below it the sum target shifted down
  by one.
\<close>

definition carried :: "nat \<Rightarrow> bool \<Rightarrow> u32 \<Rightarrow> u32" where
  "carried n c w = push_bit n (of_bool c) OR take_bit n (drop_bit 1 w)"

section \<open>Round trip of the word access\<close>

lemma ff_mask: "(0xFF :: u32) = mask 8"
  by (simp add: mask_eq_exp_minus_1)

lemma be_compose:
  "push_bit 24 (ucast (ucast (drop_bit 8 (drop_bit 8 (drop_bit 8 v)) AND 0xFF :: u32) :: u8) :: u32)
   OR push_bit 16 (ucast (ucast (drop_bit 8 (drop_bit 8 v) AND 0xFF :: u32) :: u8))
   OR push_bit 8 (ucast (ucast (drop_bit 8 v AND 0xFF :: u32) :: u8))
   OR ucast (ucast (v AND 0xFF :: u32) :: u8) = (v :: u32)"
  unfolding ff_mask
proof (rule bit_word_eqI)
  fix n :: nat
  assume "n < LENGTH(32)"
  then have n: "n < 32" by simp
  consider "n < 8" | "8 \<le> n" "n < 16" | "16 \<le> n" "n < 24" | "24 \<le> n" "n < 32"
    using n by linarith
  then show "bit (push_bit 24 (ucast (ucast (drop_bit 8 (drop_bit 8 (drop_bit 8 v)) AND mask 8 :: u32) :: u8) :: u32)
   OR push_bit 16 (ucast (ucast (drop_bit 8 (drop_bit 8 v) AND mask 8 :: u32) :: u8))
   OR push_bit 8 (ucast (ucast (drop_bit 8 v AND mask 8 :: u32) :: u8))
   OR ucast (ucast (v AND mask 8 :: u32) :: u8)) n = bit v n"
    by cases (auto simp add: bit_simps)
qed

lemma be_decompose:
  fixes b0 b1 b2 b3 :: u8
  defines "w \<equiv> (push_bit 24 (ucast b0) OR push_bit 16 (ucast b1) OR push_bit 8 (ucast b2) OR ucast b3 :: u32)"
  shows "ucast (drop_bit 8 (drop_bit 8 (drop_bit 8 w)) AND 0xFF) = b0"
    and "ucast (drop_bit 8 (drop_bit 8 w) AND 0xFF) = b1"
    and "ucast (drop_bit 8 w AND 0xFF) = b2"
    and "ucast (w AND 0xFF) = b3"
proof -
  show "ucast (drop_bit 8 (drop_bit 8 (drop_bit 8 w)) AND 0xFF) = b0"
    unfolding ff_mask w_def by (rule bit_word_eqI) (auto simp add: bit_simps dest: bit_imp_le_length)
  show "ucast (drop_bit 8 (drop_bit 8 w) AND 0xFF) = b1"
    unfolding ff_mask w_def by (rule bit_word_eqI) (auto simp add: bit_simps dest: bit_imp_le_length)
  show "ucast (drop_bit 8 w AND 0xFF) = b2"
    unfolding ff_mask w_def by (rule bit_word_eqI) (auto simp add: bit_simps dest: bit_imp_le_length)
  show "ucast (w AND 0xFF) = b3"
    unfolding ff_mask w_def by (rule bit_word_eqI) (auto simp add: bit_simps dest: bit_imp_le_length)
qed

lemma reconst_write:
  "p + 4 \<le> length buf \<Longrightarrow> reconst_32 (write_32b v buf p) p = v"
  by (simp add: reconst_32_def write_32b_def Let_def be_compose del: drop_bit_drop_bit)

lemma write_reconst:
  "write_32b (reconst_32 buf p) buf p = buf"
proof -
  have w: "reconst_32 buf p =
      push_bit 24 (ucast (buf ! p)) OR push_bit 16 (ucast (buf ! (p + 1)))
        OR push_bit 8 (ucast (buf ! (p + 2))) OR ucast (buf ! (p + 3))"
    by (simp only: reconst_32_def)
  note d = be_decompose [of "buf ! p" "buf ! (p + 1)" "buf ! (p + 2)" "buf ! (p + 3)", folded w]
  show ?thesis
    unfolding write_32b_def Let_def d by (simp add: list_update_same_conv)
qed

lemma length_write_32b [simp]: "length (write_32b v buf p) = length buf"
  by (simp add: write_32b_def Let_def)

text \<open>
  C10. Big-endian word access round-trips: in a buffer with at least four bytes from
  index \<open>p\<close> on, reading after \<^verbatim>\<open>write_32b(v, buf + p)\<close> gives \<open>v\<close> back, and writing back
  the word just read leaves the buffer as it was.
\<close>

theorem word_access_roundtrip:
  "p + 4 \<le> length buf \<Longrightarrow>
     reconst_32 (write_32b v buf p) p = v \<and> write_32b (reconst_32 buf p) buf p = buf"
  by (simp add: reconst_write write_reconst)

theorem word_access_roundtrip_witness:
  "(1::nat) + 4 \<le> length [9, 1, 2, 3, 4 :: u8] \<and>
   reconst_32 (write_32b 0x12345678 [9, 1, 2, 3, 4] 1) 1 = 0x12345678 \<and>
   write_32b (reconst_32 [9, 1, 2, 3, 4] 1) [9, 1, 2, 3, 4] 1 = [9, 1, 2, 3, 4]"
  using word_access_roundtrip [of 1 "[9, 1, 2, 3, 4]" "0x12345678"] by simp

section \<open>checksum\_std on the list of words\<close>

lemma length_be_words [simp]: "length (be_words buf) = length buf div 4"
  by (simp add: be_words_def)

lemma nth_be_words: "i < length buf div 4 \<Longrightarrow> be_words buf ! i = reconst_32 buf (4 * i)"
  by (simp add: be_words_def)

lemma xor_words_simps [simp]: "xor_words [] = 0" "xor_words (w # ws) = w XOR xor_words ws"
  by (simp_all add: xor_words_def)

lemma rd32_word:
  assumes "int (length buf) = siz" "siz mod 4 = 0" "k < length buf div 4"
  shows "rd32 buf (4 * int k) = Inr (be_words buf ! k)"
  using assms by (simp add: rd32_def nth_be_words nat_mult_distrib)

lemma std_sum_words:
  assumes "int (length buf) = siz" "siz mod 4 = 0"
  shows "k \<le> length buf div 4 \<Longrightarrow>
     std_sum buf siz (4 * int k) s x =
       Inr (s + sum_list (drop k (be_words buf)), x XOR xor_words (drop k (be_words buf)))"
proof (induction "length buf div 4 - k" arbitrary: k s x)
  case 0
  then have "k = length buf div 4" by simp
  then have "\<not> 4 * int k < siz" using assms by presburger
  then have "std_sum buf siz (4 * int k) s x = Inr (s, x)"
    by (subst std_sum.simps) simp
  then show ?case using \<open>k = length buf div 4\<close> by simp
next
  case (Suc m)
  then have k: "k < length buf div 4" by simp
  then have lt: "4 * int k < siz" using assms by presburger
  have d: "drop k (be_words buf) = be_words buf ! k # drop (Suc k) (be_words buf)"
    using k by (simp add: Cons_nth_drop_Suc)
  have s4: "4 * int k + 4 = 4 * int (Suc k)" by simp
  have "std_sum buf siz (4 * int k) s x =
     std_sum buf siz (4 * int k + 4) (s + be_words buf ! k) (x XOR be_words buf ! k)"
    by (subst std_sum.simps) (simp add: lt rd32_word [OF assms k])
  also have "\<dots> =
     std_sum buf siz (4 * int (Suc k)) (s + be_words buf ! k) (x XOR be_words buf ! k)"
    by (simp only: s4)
  also have "\<dots> = Inr (s + be_words buf ! k + sum_list (drop (Suc k) (be_words buf)),
      (x XOR be_words buf ! k) XOR xor_words (drop (Suc k) (be_words buf)))"
    using Suc.hyps(1) [of "Suc k"] Suc.hyps(2) k by simp
  finally show ?case by (simp add: d ac_simps)
qed


lemma std_scan_words:
  assumes "int (length buf) = siz" "siz mod 4 = 0"
  shows "k \<le> length buf div 4 \<Longrightarrow>
     std_scan buf siz cks ckx (4 * int k) pc px nc nx =
       Inr (pick_last cks (drop k (be_words buf)) k pc,
            pick_last ckx (drop k (be_words buf)) k px,
            nc + count_list (drop k (be_words buf)) cks,
            nx + count_list (drop k (be_words buf)) ckx)"
proof (induction "length buf div 4 - k" arbitrary: k pc px nc nx)
  case 0
  then have "k = length buf div 4" by simp
  then have "\<not> 4 * int k < siz" using assms by presburger
  then have "std_scan buf siz cks ckx (4 * int k) pc px nc nx = Inr (pc, px, nc, nx)"
    by (subst std_scan.simps) simp
  then show ?case using \<open>k = length buf div 4\<close> by simp
next
  case (Suc m)
  then have k: "k < length buf div 4" by simp
  then have lt: "4 * int k < siz" using assms by presburger
  have d: "drop k (be_words buf) = be_words buf ! k # drop (Suc k) (be_words buf)"
    using k by (simp add: Cons_nth_drop_Suc)
  have s4: "4 * int k + 4 = 4 * int (Suc k)" by simp
  show ?case
    unfolding std_scan.simps [of buf siz cks ckx "4 * int k"] s4
    using lt rd32_word [OF assms k] Suc.hyps(1) [of "Suc k"] Suc.hyps(2) k
    by (simp add: d)
qed

lemma pick_last_None:
  "v \<notin> set ws \<Longrightarrow> pick_last v ws k acc = acc"
  by (induction ws arbitrary: k acc) auto

lemma pick_last_Some:
  "v \<in> set ws \<Longrightarrow>
     \<exists>i < length ws. pick_last v ws k acc = Some (4 * int (k + i)) \<and> ws ! i = v \<and>
        (\<forall>j < length ws. ws ! j = v \<longrightarrow> j \<le> i)"
proof (induction ws arbitrary: k acc)
  case Nil
  then show ?case by simp
next
  case (Cons w ws)
  show ?case
  proof (cases "v \<in> set ws")
    case True
    from Cons.IH [OF True, of "Suc k" "if w = v then Some (4 * int k) else acc"]
    obtain i where i: "i < length ws"
      "pick_last v ws (Suc k) (if w = v then Some (4 * int k) else acc) = Some (4 * int (Suc k + i))"
      "ws ! i = v" "\<forall>j < length ws. ws ! j = v \<longrightarrow> j \<le> i"
      by blast
    have "\<forall>j < length (w # ws). (w # ws) ! j = v \<longrightarrow> j \<le> Suc i"
    proof (intro allI impI)
      fix j assume "j < length (w # ws)" "(w # ws) ! j = v"
      then show "j \<le> Suc i" using i(4) by (cases j) auto
    qed
    with i show ?thesis
      by (intro exI [of _ "Suc i"]) simp
  next
    case False
    with Cons.prems have wv: "w = v" by simp
    have "\<forall>j < length (w # ws). (w # ws) ! j = v \<longrightarrow> j \<le> 0"
    proof (intro allI impI)
      fix j assume "j < length (w # ws)" "(w # ws) ! j = v"
      then show "j \<le> 0" using False by (cases j) auto
    qed
    with wv False show ?thesis
      by (intro exI [of _ 0]) (simp add: pick_last_None)
  qed
qed


lemma std_sum_all:
  assumes "int (length buf) = siz" "siz mod 4 = 0"
  shows "std_sum buf siz 0 0 0 = Inr (sum_list (be_words buf), xor_words (be_words buf))"
  using std_sum_words [OF assms, of 0 0 0] by simp

lemma std_targets_words:
  assumes "int (length buf) = siz" "siz mod 4 = 0"
  shows "std_targets buf siz =
     Inr (xor_words (be_words buf), sum_list (be_words buf) - 2 * xor_words (be_words buf))"
  by (simp add: std_targets_def fbind_def std_sum_all [OF assms])

lemma std_scan_all:
  assumes "int (length buf) = siz" "siz mod 4 = 0"
  shows "std_scan buf siz cks ckx 0 pc px 0 0 =
       Inr (pick_last cks (be_words buf) 0 pc, pick_last ckx (be_words buf) 0 px,
            count_list (be_words buf) cks, count_list (be_words buf) ckx)"
  using std_scan_words [OF assms, of 0 cks ckx pc px 0 0] by simp

lemma std_locate_words:
  assumes "int (length buf) = siz" "siz mod 4 = 0"
  shows "std_locate buf siz cks ckx pc px =
     Inr \<lparr>ret = (if count_list (be_words buf) ckx = 0 \<and> count_list (be_words buf) cks = 0
                  then - 1 else 0),
          o_cks = pick_last cks (be_words buf) 0 pc,
          o_ckx = pick_last ckx (be_words buf) 0 px,
          warnings =
            (if count_list (be_words buf) ckx > 1 \<or> count_list (be_words buf) cks > 1
             then [WarnMultiple] else []) @
            (if count_list (be_words buf) ckx = 0 \<and> count_list (be_words buf) cks = 0
             then [WarnNone] else [])\<rparr>"
  by (simp add: std_locate_def fbind_def std_scan_all [OF assms] Let_def)

lemma checksum_std_words:
  assumes "int (length buf) = siz" "0 < siz" "siz mod 4 = 0"
  shows "checksum_std buf siz pc px =
     std_locate buf siz (xor_words (be_words buf))
       (sum_list (be_words buf) - 2 * xor_words (be_words buf)) pc px"
  using assms by (simp add: checksum_std_def fbind_def std_targets_words)

lemma aligned_word:
  assumes "int (length buf) = siz" "siz mod 4 = 0" "q mod 4 = 0" "rd32 buf q = Inr v"
  shows "\<exists>j < length (be_words buf). q = 4 * int j \<and> be_words buf ! j = v"
proof -
  from assms(4) have b: "0 \<le> q" "q + 4 \<le> int (length buf)" and v: "reconst_32 buf (nat q) = v"
    by (auto simp add: rd32_def split: if_splits)
  define j where "j = nat (q div 4)"
  have q: "q = 4 * int j" using b assms(3) by (simp add: j_def) presburger
  have j: "j < length buf div 4" using b q by presburger
  have "nat q = 4 * j" using q by simp
  with v j q show ?thesis by (intro exI [of _ j]) (simp add: nth_be_words)
qed

lemma pick_last_greatest:
  assumes "int (length buf) = siz" "siz mod 4 = 0" "q mod 4 = 0" "rd32 buf q = Inr v"
  shows "\<exists>p. pick_last v (be_words buf) 0 acc = Some p \<and> p mod 4 = 0 \<and> rd32 buf p = Inr v \<and>
     (\<forall>p'. p' mod 4 = 0 \<and> rd32 buf p' = Inr v \<longrightarrow> p' \<le> p)"
proof -
  from aligned_word [OF assms] have "v \<in> set (be_words buf)"
    by (metis nth_mem)
  from pick_last_Some [OF this, of 0 acc]
  obtain i where i: "i < length (be_words buf)"
    "pick_last v (be_words buf) 0 acc = Some (4 * int i)" "be_words buf ! i = v"
    "\<forall>j < length (be_words buf). be_words buf ! j = v \<longrightarrow> j \<le> i"
    by auto
  have "rd32 buf (4 * int i) = Inr v"
    using rd32_word [OF assms(1,2), of i] i by simp
  moreover have "\<forall>p'. p' mod 4 = 0 \<and> rd32 buf p' = Inr v \<longrightarrow> p' \<le> 4 * int i"
  proof (intro allI impI)
    fix p' assume "p' mod 4 = 0 \<and> rd32 buf p' = Inr v"
    then obtain j where "j < length (be_words buf)" "p' = 4 * int j" "be_words buf ! j = v"
      using aligned_word [OF assms(1,2), of p' v] by auto
    with i(4) show "p' \<le> 4 * int i" by auto
  qed
  ultimately show ?thesis using i(2) by simp
qed


text \<open>
  C5. For a buffer whose length is a positive multiple of 4, the first loop of
  \<^verbatim>\<open>checksum_std\<close> yields the wrapping sum \<open>sumt\<close> and the xor \<open>xort\<close> of all big-endian
  words, the candidate values are \<open>cks = xort\<close> and \<open>ckx = sumt - 2 * xort\<close> (modulo
  \<open>2 ^ 32\<close>), and these are the values the scan of the image is run with.
\<close>

theorem std_targets_fold:
  assumes "int (length buf) = siz" "0 < siz" "siz mod 4 = 0"
  shows "std_sum buf siz 0 0 0 = Inr (sum_list (be_words buf), xor_words (be_words buf)) \<and>
     std_targets buf siz =
       Inr (xor_words (be_words buf), sum_list (be_words buf) - 2 * xor_words (be_words buf)) \<and>
     checksum_std buf siz pc px =
       std_locate buf siz (xor_words (be_words buf))
         (sum_list (be_words buf) - 2 * xor_words (be_words buf)) pc px"
  using assms by (simp add: std_sum_all std_targets_words checksum_std_words)

theorem std_targets_fold_witness:
  "int (length [0, 0, 0, 1, 0, 0, 0, 2 :: u8]) = 8 \<and> (0::int) < 8 \<and> (8::int) mod 4 = 0 \<and>
   std_sum [0, 0, 0, 1, 0, 0, 0, 2] 8 0 0 0 = Inr (3, 3) \<and>
   std_targets [0, 0, 0, 1, 0, 0, 0, 2] 8 = Inr (3, - 3) \<and>
   checksum_std [0, 0, 0, 1, 0, 0, 0, 2] 8 None None =
     std_locate [0, 0, 0, 1, 0, 0, 0, 2] 8 3 (- 3) None None"
  using std_targets_fold [of "[0, 0, 0, 1, 0, 0, 0, 2]" 8 None None]
  by (simp add: be_words_def reconst_32_def upt_rec)

text \<open>
  C6, as stated, fails: the scan overwrites its output at every match, so with several
  matches the offset reported is not the first. In the image of three words \<open>7\<close> both
  candidate values are \<open>7\<close>, offset \<open>0\<close> holds a match, and the offsets reported are \<open>8\<close>.
\<close>

theorem std_first_match_counterexample:
  "std_targets [0, 0, 0, 7, 0, 0, 0, 7, 0, 0, 0, 7] 12 = Inr (7, 7) \<and>
   rd32 [0, 0, 0, 7, 0, 0, 0, 7, 0, 0, 0, 7] 0 = Inr 7 \<and>
   checksum_std [0, 0, 0, 7, 0, 0, 0, 7, 0, 0, 0, 7] 12 None None =
     Inr \<lparr>ret = 0, o_cks = Some 8, o_ckx = Some 8, warnings = [WarnMultiple]\<rparr>"
  by (simp add: checksum_std_def std_targets_def std_locate_def fbind_def std_sum.simps
      std_scan.simps rd32_def reconst_32_def Let_def)

text \<open>
  C6, amended. For a buffer whose length is a positive multiple of 4: when some aligned
  word equals the derived \<open>cks\<close> (respectively \<open>ckx\<close>), \<^verbatim>\<open>checksum_std\<close> reports in
  \<open>p_cks\<close> (respectively \<open>p_ckx\<close>) the last matching offset, that is the greatest aligned
  offset whose word equals the value; and it emits the warning exactly when one of the
  two values has more than one match.
\<close>

theorem std_reports_last_match:
  assumes "int (length buf) = siz" "0 < siz" "siz mod 4 = 0"
    and "std_targets buf siz = Inr (cks, ckx)"
  shows "\<exists>r. checksum_std buf siz pc px = Inr r \<and>
     ((\<exists>q. q mod 4 = 0 \<and> rd32 buf q = Inr cks) \<longrightarrow>
        (\<exists>p. o_cks r = Some p \<and> p mod 4 = 0 \<and> rd32 buf p = Inr cks \<and>
           (\<forall>p'. p' mod 4 = 0 \<and> rd32 buf p' = Inr cks \<longrightarrow> p' \<le> p))) \<and>
     ((\<exists>q. q mod 4 = 0 \<and> rd32 buf q = Inr ckx) \<longrightarrow>
        (\<exists>p. o_ckx r = Some p \<and> p mod 4 = 0 \<and> rd32 buf p = Inr ckx \<and>
           (\<forall>p'. p' mod 4 = 0 \<and> rd32 buf p' = Inr ckx \<longrightarrow> p' \<le> p))) \<and>
     (WarnMultiple \<in> set (warnings r) \<longleftrightarrow>
        1 < count_list (be_words buf) cks \<or> 1 < count_list (be_words buf) ckx)"
proof -
  have t: "cks = xor_words (be_words buf)"
    "ckx = sum_list (be_words buf) - 2 * xor_words (be_words buf)"
    using assms(4) std_targets_words [OF assms(1,3)] by auto
  have c: "checksum_std buf siz pc px = std_locate buf siz cks ckx pc px"
    using checksum_std_words [OF assms(1-3)] t by simp
  let ?r = "\<lparr>ret = (if count_list (be_words buf) ckx = 0 \<and> count_list (be_words buf) cks = 0
                  then - 1 else 0),
          o_cks = pick_last cks (be_words buf) 0 pc,
          o_ckx = pick_last ckx (be_words buf) 0 px,
          warnings =
            (if count_list (be_words buf) ckx > 1 \<or> count_list (be_words buf) cks > 1
             then [WarnMultiple] else []) @
            (if count_list (be_words buf) ckx = 0 \<and> count_list (be_words buf) cks = 0
             then [WarnNone] else [])\<rparr>"
  have r: "checksum_std buf siz pc px = Inr ?r"
    unfolding c by (rule std_locate_words [OF assms(1,3)])
  have a: "(\<exists>q. q mod 4 = 0 \<and> rd32 buf q = Inr cks) \<longrightarrow>
        (\<exists>p. o_cks ?r = Some p \<and> p mod 4 = 0 \<and> rd32 buf p = Inr cks \<and>
           (\<forall>p'. p' mod 4 = 0 \<and> rd32 buf p' = Inr cks \<longrightarrow> p' \<le> p))"
  proof
    assume "\<exists>q. q mod 4 = 0 \<and> rd32 buf q = Inr cks"
    then obtain q where "q mod 4 = 0 \<and> rd32 buf q = Inr cks" ..
    then have q: "q mod 4 = 0" "rd32 buf q = Inr cks" by simp_all
    from pick_last_greatest [OF assms(1,3) q, of pc]
    show "\<exists>p. o_cks ?r = Some p \<and> p mod 4 = 0 \<and> rd32 buf p = Inr cks \<and>
           (\<forall>p'. p' mod 4 = 0 \<and> rd32 buf p' = Inr cks \<longrightarrow> p' \<le> p)"
      by simp
  qed
  have b: "(\<exists>q. q mod 4 = 0 \<and> rd32 buf q = Inr ckx) \<longrightarrow>
        (\<exists>p. o_ckx ?r = Some p \<and> p mod 4 = 0 \<and> rd32 buf p = Inr ckx \<and>
           (\<forall>p'. p' mod 4 = 0 \<and> rd32 buf p' = Inr ckx \<longrightarrow> p' \<le> p))"
  proof
    assume "\<exists>q. q mod 4 = 0 \<and> rd32 buf q = Inr ckx"
    then obtain q where "q mod 4 = 0 \<and> rd32 buf q = Inr ckx" ..
    then have q: "q mod 4 = 0" "rd32 buf q = Inr ckx" by simp_all
    from pick_last_greatest [OF assms(1,3) q, of px]
    show "\<exists>p. o_ckx ?r = Some p \<and> p mod 4 = 0 \<and> rd32 buf p = Inr ckx \<and>
           (\<forall>p'. p' mod 4 = 0 \<and> rd32 buf p' = Inr ckx \<longrightarrow> p' \<le> p)"
      by simp
  qed
  have w: "WarnMultiple \<in> set (warnings ?r) \<longleftrightarrow>
        1 < count_list (be_words buf) cks \<or> 1 < count_list (be_words buf) ckx"
    by auto
  show ?thesis by (intro exI [of _ ?r] conjI r a b w)
qed

theorem std_reports_last_match_witness:
  "\<exists>r. checksum_std [0, 0, 0, 7, 0, 0, 0, 7, 0, 0, 0, 7] 12 None None = Inr r \<and>
     o_cks r = Some 8 \<and> o_ckx r = Some 8 \<and> WarnMultiple \<in> set (warnings r)"
proof -
  let ?B = "[0, 0, 0, 7, 0, 0, 0, 7, 0, 0, 0, 7] :: u8 list"
  have t: "std_targets ?B 12 = Inr (7, 7)"
    by (simp add: std_targets_def fbind_def std_sum.simps rd32_def reconst_32_def)
  have r: "rd32 ?B 0 = Inr 7" "rd32 ?B 4 = Inr 7" "rd32 ?B 8 = Inr 7"
    by (simp_all add: rd32_def reconst_32_def)
  have n: "\<And>p. rd32 ?B p = Inr 7 \<Longrightarrow> p \<le> 8"
    by (simp add: rd32_def split: if_splits)
  from std_reports_last_match [of ?B 12 7 7 None None, OF _ _ _ t]
  obtain r where r': "checksum_std ?B 12 None None = Inr r"
    and a: "(\<exists>q. q mod 4 = 0 \<and> rd32 ?B q = Inr 7) \<longrightarrow>
        (\<exists>p. o_cks r = Some p \<and> p mod 4 = 0 \<and> rd32 ?B p = Inr 7 \<and>
           (\<forall>p'. p' mod 4 = 0 \<and> rd32 ?B p' = Inr 7 \<longrightarrow> p' \<le> p))"
    and b: "(\<exists>q. q mod 4 = 0 \<and> rd32 ?B q = Inr 7) \<longrightarrow>
        (\<exists>p. o_ckx r = Some p \<and> p mod 4 = 0 \<and> rd32 ?B p = Inr 7 \<and>
           (\<forall>p'. p' mod 4 = 0 \<and> rd32 ?B p' = Inr 7 \<longrightarrow> p' \<le> p))"
    and w: "WarnMultiple \<in> set (warnings r) \<longleftrightarrow>
        1 < count_list (be_words ?B) 7 \<or> 1 < count_list (be_words ?B) 7"
    by auto
  have ex: "\<exists>q. q mod 4 = 0 \<and> rd32 ?B q = Inr 7" using r(1) by (intro exI [of _ 0]) simp
  from a ex obtain p where p: "o_cks r = Some p" "rd32 ?B p = Inr 7"
    "\<forall>p'. p' mod 4 = 0 \<and> rd32 ?B p' = Inr 7 \<longrightarrow> p' \<le> p" by blast
  have "8 \<le> p" using p(3) r(3) by simp
  moreover have "p \<le> 8" using n p(2) by simp
  ultimately have p8: "o_cks r = Some 8" using p(1) by simp
  from b ex obtain p2 where p2: "o_ckx r = Some p2" "rd32 ?B p2 = Inr 7"
    "\<forall>p'. p' mod 4 = 0 \<and> rd32 ?B p' = Inr 7 \<longrightarrow> p' \<le> p2" by blast
  have "8 \<le> p2" using p2(3) r(3) by simp
  moreover have "p2 \<le> 8" using n p2(2) by simp
  ultimately have p28: "o_ckx r = Some 8" using p2(1) by simp
  have "WarnMultiple \<in> set (warnings r)"
    using w by (simp add: be_words_def reconst_32_def upt_rec)
  with r' p8 p28 show ?thesis by blast
qed

text \<open>
  C7. The claim asks for an error when a value has no match and, on success, for both
  outputs to be set. \<^verbatim>\<open>checksum_std\<close> tests \<^verbatim>\<open>ckxcount==0 && ckscount==0\<close>: when \<open>cks\<close>
  occurs in the image and \<open>ckx\<close> does not, it returns 0 and \<open>p_ckx\<close> still holds what it
  held at the call (nothing, for a fresh variable).
\<close>

theorem std_success_with_one_found:
  assumes "int (length buf) = siz" "0 < siz" "siz mod 4 = 0"
    and "std_targets buf siz = Inr (cks, ckx)"
    and "cks \<in> set (be_words buf)" "ckx \<notin> set (be_words buf)"
  shows "\<exists>r. checksum_std buf siz pc px = Inr r \<and> ret r = 0 \<and> o_ckx r = px"
proof -
  have t: "cks = xor_words (be_words buf)"
    "ckx = sum_list (be_words buf) - 2 * xor_words (be_words buf)"
    using assms(4) std_targets_words [OF assms(1,3)] by auto
  have c: "checksum_std buf siz pc px = std_locate buf siz cks ckx pc px"
    using checksum_std_words [OF assms(1-3)] t by simp
  have "count_list (be_words buf) cks \<noteq> 0" using assms(5) by (simp add: count_list_0_iff)
  then show ?thesis
    unfolding c std_locate_words [OF assms(1,3)]
    using assms(6) by (simp add: pick_last_None)
qed

theorem std_success_with_one_found_witness:
  "checksum_std [0, 0, 0, 1, 0, 0, 0, 0] 8 None None =
     Inr \<lparr>ret = 0, o_cks = Some 0, o_ckx = None, warnings = []\<rparr>"
proof -
  let ?B = "[0, 0, 0, 1, 0, 0, 0, 0] :: u8 list"
  have t: "std_targets ?B 8 = Inr (1, 0xFFFFFFFF)"
    by (simp add: std_targets_def fbind_def std_sum.simps rd32_def reconst_32_def)
  have w: "be_words ?B = [1, 0]" by (simp add: be_words_def reconst_32_def upt_rec)
  from std_success_with_one_found [of ?B 8 1 "0xFFFFFFFF" None None, OF _ _ _ t]
  have "\<exists>r. checksum_std ?B 8 None None = Inr r \<and> ret r = 0 \<and> o_ckx r = None"
    by (simp add: w)
  then show ?thesis
    by (simp add: checksum_std_def std_targets_def std_locate_def fbind_def std_sum.simps
      std_scan.simps rd32_def reconst_32_def Let_def)
qed

section \<open>The bit iteration\<close>

lemma bit_test: "(w AND push_bit n 1 \<noteq> 0) = bit w n" for w :: u32
  by (simp only: bit_iff_and_push_bit_not_eq_0)

lemma bit_test2: "(w AND 2 ^ n \<noteq> 0) = bit w n" for w :: u32
  using bit_test [of w n] by simp

lemma nat_1_add: "nat (1 + int n) = Suc n"
  by simp

lemma carried_Suc:
  "push_bit (Suc n) (of_bool c) OR carried n (bit w (Suc n)) w = carried (Suc n) c w"
  unfolding carried_def
  by (rule bit_word_eqI) (auto simp add: bit_simps less_Suc_eq)

lemma carried_0: "carried 0 c w = push_bit 0 (of_bool c)"
  unfolding carried_def by simp

lemma carried_31: "carried 31 False w = drop_bit 1 w"
  unfolding carried_def
  by (rule bit_word_eqI) (auto simp add: bit_simps dest: bit_imp_le_length)

lemma bit_step_dx0:
  "s_dx s = 0 \<Longrightarrow>
     \<exists>s'. bit_step bitcur s = Some s' \<and> s_ds s' = s_ds s \<and> s_dx s' = 0 \<and>
       s_mang s' = s_mang s \<and> s_carry s' = bit (s_ds s) (nat bitcur) \<and>
       s_a s' = s_a s OR push_bit (nat bitcur) (of_bool (s_carry s)) \<and>
       s_b s' = s_b s OR push_bit (nat bitcur) (of_bool (s_carry s))"
  by (simp add: bit_step_def bit_test2)

lemma fix_loop_dx0:
  "s_dx s = 0 \<Longrightarrow>
     \<exists>s'. fix_loop (int n) s = Some s' \<and> s_ds s' = s_ds s \<and> s_dx s' = 0 \<and>
       s_mang s' = s_mang s \<and> s_carry s' = bit (s_ds s) 0 \<and>
       s_a s' = s_a s OR carried n (s_carry s) (s_ds s) \<and>
       s_b s' = s_b s OR carried n (s_carry s) (s_ds s)"
proof (induction n arbitrary: s)
  case 0
  have e: "fix_loop (- 1) t = Some t" for t
    by (subst fix_loop.simps) simp
  from bit_step_dx0 [OF 0, of 0] obtain s' where s': "bit_step 0 s = Some s'"
    "s_ds s' = s_ds s" "s_dx s' = 0" "s_mang s' = s_mang s" "s_carry s' = bit (s_ds s) (nat 0)"
    "s_a s' = s_a s OR push_bit (nat 0) (of_bool (s_carry s))"
    "s_b s' = s_b s OR push_bit (nat 0) (of_bool (s_carry s))"
    by blast
  have "fix_loop (int 0) s = Some s'"
    by (subst fix_loop.simps) (simp add: s'(1) e)
  with s' show ?case by (simp add: carried_0)
next
  case (Suc n)
  from bit_step_dx0 [OF Suc.prems, of "int (Suc n)"] obtain s1 where s1:
    "bit_step (int (Suc n)) s = Some s1"
    "s_ds s1 = s_ds s" "s_dx s1 = 0" "s_mang s1 = s_mang s"
    "s_carry s1 = bit (s_ds s) (nat (int (Suc n)))"
    "s_a s1 = s_a s OR push_bit (nat (int (Suc n))) (of_bool (s_carry s))"
    "s_b s1 = s_b s OR push_bit (nat (int (Suc n))) (of_bool (s_carry s))"
    by blast
  have n: "nat (int (Suc n)) = Suc n" by simp
  from Suc.IH [OF s1(3)] obtain s' where s':
    "fix_loop (int n) s1 = Some s'" "s_ds s' = s_ds s1" "s_dx s' = 0"
    "s_mang s' = s_mang s1" "s_carry s' = bit (s_ds s1) 0"
    "s_a s' = s_a s1 OR carried n (s_carry s1) (s_ds s1)"
    "s_b s' = s_b s1 OR carried n (s_carry s1) (s_ds s1)"
    by blast
  have st: "bit_step (1 + int n) s = Some s1" using s1(1) by simp
  have "fix_loop (int (Suc n)) s = fix_loop (int n) s1"
    by (subst fix_loop.simps) (simp add: st)
  then have l: "fix_loop (int (Suc n)) s = Some s'" using s'(1) by simp
  have a: "s_a s' = s_a s OR carried (Suc n) (s_carry s) (s_ds s)"
    unfolding s'(6) s1(2,5,6) n by (simp only: or.assoc carried_Suc)
  have b: "s_b s' = s_b s OR carried (Suc n) (s_carry s) (s_ds s)"
    unfolding s'(7) s1(2,5,7) n by (simp only: or.assoc carried_Suc)
  show ?case
    using l a b s'(2-5) s1(2-4) by simp
qed

lemma fix_loop_start:
  "\<exists>s'. fix_loop 31 \<lparr>s_ds = ds, s_dx = 0, s_mang = m, s_a = 0, s_b = 0, s_carry = False\<rparr> = Some s' \<and>
     s_ds s' = ds \<and> s_dx s' = 0 \<and> s_mang s' = m \<and> s_carry s' = bit ds 0 \<and>
     s_a s' = drop_bit 1 ds \<and> s_b s' = drop_bit 1 ds"
  using fix_loop_dx0 [of "\<lparr>s_ds = ds, s_dx = 0, s_mang = m, s_a = 0, s_b = 0, s_carry = False\<rparr>" 31]
  by (simp add: carried_31)


lemma and_3_mod_4: "(siz :: int) AND 3 = siz mod 4"
proof -
  have m: "(3 :: int) = mask 2" by (simp add: mask_eq_exp_minus_1)
  have "siz AND mask 2 = siz mod 2 ^ 2"
    by (simp only: take_bit_eq_mask [symmetric] take_bit_eq_mod)
  then show ?thesis unfolding m [symmetric] by simp
qed

text \<open>
  The \<^verbatim>\<open>return\<close> of line 166 is never taken. The mangler takes up the whole xor correction
  (lines 138-140), so the xor target is 0 when the bit iteration starts and stays 0, and
  the branch that holds this \<^verbatim>\<open>return\<close> is never entered: no call of \<^verbatim>\<open>checksum_fix\<close>
  returns through it.
\<close>

lemma fbind_neq:
  "(\<And>x. m = Inr x \<Longrightarrow> f x \<noteq> Inr v) \<Longrightarrow> fbind m f \<noteq> Inr v"
  by (cases m) (simp_all add: fbind_def)

lemma fix_verify_not_infeasible: "fix_verify buf siz cks ckx \<noteq> Inr (Infeasible, B')"
  unfolding fix_verify_def by (intro fbind_neq) simp

lemma fix_solve_result:
  "\<exists>s. fix_solve cks ckx ds0 dx0 = Some s \<and> s_mang s = ckx XOR dx0 \<and>
     s_a s = drop_bit 1 (cks - ds0 - (ckx XOR dx0)) \<and>
     s_b s = drop_bit 1 (cks - ds0 - (ckx XOR dx0))"
  using fix_loop_start [of "cks - ds0 - (ckx XOR dx0)" "ckx XOR dx0"]
  by (auto simp add: fix_solve_def Let_def)

lemma fix_not_infeasible:
  "checksum_fix buf siz p_cks p_ckx p_cs p_cx p_mang \<noteq> Inr (Infeasible, B')"
proof (cases "siz \<le> 0 \<or> siz AND 3 \<noteq> 0 \<or> p_cks \<ge> siz \<or> p_ckx \<ge> siz \<or> p_cs \<ge> siz \<or> p_cx \<ge> siz")
  case True
  then show ?thesis by (simp add: checksum_fix_def)
next
  case False
  have tail: "(case fix_solve cks ckx ds0 dx0 of
      None \<Rightarrow> Inr (Infeasible, b3)
    | Some s \<Rightarrow>
        fbind (wr32 (s_a s) b3 p_cs) (\<lambda>buf4.
        fbind (wr32 (s_b s) buf4 p_cx) (\<lambda>buf5.
        fbind (wr32 (s_mang s) buf5 p_mang) (\<lambda>buf6.
          fix_verify buf6 siz cks ckx)))) \<noteq> Inr (Infeasible, B')" for ds0 dx0 b3 cks ckx
  proof -
    from fix_solve_result [of cks ckx ds0 dx0] obtain s where
      "fix_solve cks ckx ds0 dx0 = Some s" by blast
    then show ?thesis
      by (simp only: option.case) (intro fbind_neq fix_verify_not_infeasible)
  qed
  show ?thesis
    unfolding checksum_fix_def using False
    by (simp only: if_False) (intro fbind_neq, simp only: split_def tail not_False_eq_True)
qed

section \<open>checksum\_fix on the list of words\<close>

lemma sum_list_upd:
  "i < length xs \<Longrightarrow> sum_list (xs[i := v]) = sum_list xs - xs ! i + v" for xs :: "u32 list"
  by (induction xs arbitrary: i) (auto simp add: nth_Cons split: nat.splits)

lemma xor_words_upd:
  "i < length xs \<Longrightarrow> xor_words (xs[i := v]) = xor_words xs XOR xs ! i XOR v"
proof (induction xs arbitrary: i)
  case Nil
  then show ?case by simp
next
  case (Cons x xs)
  show ?case
  proof (cases i)
    case 0
    then show ?thesis by (simp add: ac_simps)
  next
    case (Suc j)
    with Cons.prems have "j < length xs" by simp
    from Cons.IH [OF this] Suc show ?thesis by (simp add: ac_simps)
  qed
qed

lemma even_sum_xor: "even (sum_list ws) = even (xor_words ws)" for ws :: "u32 list"
  by (induction ws) (simp_all add: even_xor_iff)

lemma twice_half: "even w \<Longrightarrow> drop_bit 1 w + drop_bit 1 w = w" for w :: u32
proof -
  assume "even w"
  then have "w mod 2 = 0" by (simp add: even_iff_mod_2_eq_zero)
  with div_mult_mod_eq [of w 2] have "w div 2 * 2 = w" by simp
  then show ?thesis by (simp add: drop_bit_eq_div mult_2_right)
qed

lemma reconst_write_other:
  "j \<noteq> i \<Longrightarrow> reconst_32 (write_32b v buf (4 * i)) (4 * j) = reconst_32 buf (4 * j)"
  by (simp add: reconst_32_def write_32b_def Let_def nth_list_update)

lemma be_words_write:
  assumes "i < length buf div 4"
  shows "be_words (write_32b v buf (4 * i)) = (be_words buf)[i := v]"
proof (rule nth_equalityI)
  show "length (be_words (write_32b v buf (4 * i))) = length ((be_words buf)[i := v])"
    by simp
next
  fix j assume "j < length (be_words (write_32b v buf (4 * i)))"
  then have j: "j < length buf div 4" by simp
  have i4: "4 * i + 4 \<le> length buf" using assms by presburger
  show "be_words (write_32b v buf (4 * i)) ! j = (be_words buf)[i := v] ! j"
  proof (cases "j = i")
    case True
    then show ?thesis using j i4 by (simp add: nth_be_words reconst_write)
  next
    case False
    then show ?thesis using j by (simp add: nth_be_words reconst_write_other)
  qed
qed

lemma wr32_word:
  assumes "int (length buf) = siz" "siz mod 4 = 0" "i < length buf div 4"
  shows "wr32 v buf (4 * int i) = Inr (write_32b v buf (4 * i))"
  using assms by (simp add: wr32_def nat_mult_distrib)


lemma fix_sum_words:
  assumes "int (length buf) = siz" "siz mod 4 = 0"
    and "ic < length buf div 4" "ix < length buf div 4"
  shows "k \<le> length buf div 4 \<Longrightarrow>
     fix_sum buf siz (4 * int ic) (4 * int ix) (4 * int k) s x =
       Inr (s + sum_list (drop k ((be_words buf)[ic := 0, ix := 0])),
            x XOR xor_words (drop k ((be_words buf)[ic := 0, ix := 0])))"
proof (induction "length buf div 4 - k" arbitrary: k s x)
  case 0
  then have "k = length buf div 4" by simp
  then have "\<not> 4 * int k < siz" using assms by presburger
  then have "fix_sum buf siz (4 * int ic) (4 * int ix) (4 * int k) s x = Inr (s, x)"
    by (subst fix_sum.simps) simp
  then show ?case using \<open>k = length buf div 4\<close> by simp
next
  case (Suc m)
  let ?ws = "(be_words buf)[ic := 0, ix := 0]"
  from Suc have k: "k < length buf div 4" by simp
  then have lt: "4 * int k < siz" using assms by presburger
  have d: "drop k ?ws = ?ws ! k # drop (Suc k) ?ws"
    using k by (simp add: Cons_nth_drop_Suc)
  have s4: "4 * int k + 4 = 4 * int (Suc k)" by simp
  have ih: "fix_sum buf siz (4 * int ic) (4 * int ix) (4 * int (Suc k)) s' x' =
       Inr (s' + sum_list (drop (Suc k) ?ws), x' XOR xor_words (drop (Suc k) ?ws))" for s' x'
    using Suc.hyps(1) [of "Suc k"] Suc.hyps(2) k by simp
  show ?case
  proof (cases "k = ic \<or> k = ix")
    case True
    then have z: "?ws ! k = 0" using k assms(3,4) by (auto simp add: nth_list_update)
    have "fix_sum buf siz (4 * int ic) (4 * int ix) (4 * int k) s x =
        fix_sum buf siz (4 * int ic) (4 * int ix) (4 * int k + 4) s x"
      using True lt by (subst fix_sum.simps) auto
    then show ?thesis unfolding s4 ih d z by simp
  next
    case False
    then have z: "?ws ! k = be_words buf ! k" by (simp add: nth_list_update)
    have "fix_sum buf siz (4 * int ic) (4 * int ix) (4 * int k) s x =
        fix_sum buf siz (4 * int ic) (4 * int ix) (4 * int k + 4)
          (s + be_words buf ! k) (x XOR be_words buf ! k)"
      using False lt rd32_word [OF assms(1,2) k] by (subst fix_sum.simps) auto
    then show ?thesis unfolding s4 ih d z by (simp add: ac_simps)
  qed
qed

lemma fix_sum_all:
  assumes "int (length buf) = siz" "siz mod 4 = 0"
    and "ic < length buf div 4" "ix < length buf div 4"
  shows "fix_sum buf siz (4 * int ic) (4 * int ix) 0 0 0 =
       Inr (sum_list ((be_words buf)[ic := 0, ix := 0]),
            xor_words ((be_words buf)[ic := 0, ix := 0]))"
  using fix_sum_words [OF assms, of 0 0 0] by simp

lemma pick_last_found:
  assumes "int (length buf) = siz" "siz mod 4 = 0" "v \<in> set (be_words buf)"
  shows "\<exists>p. pick_last v (be_words buf) 0 acc = Some p \<and> rd32 buf p = Inr v"
proof -
  from pick_last_Some [OF assms(3), of 0 acc]
  obtain i where i: "i < length (be_words buf)"
    "pick_last v (be_words buf) 0 acc = Some (4 * int i)" "be_words buf ! i = v"
    by auto
  have "rd32 buf (4 * int i) = Inr v"
    using rd32_word [OF assms(1,2), of i] i by simp
  with i(2) show ?thesis by simp
qed

lemma fix_verify_ok:
  assumes "int (length buf) = siz" "0 < siz" "siz mod 4 = 0"
    and "std_targets buf siz = Inr (cks, ckx)"
    and "cks \<in> set (be_words buf)" "ckx \<in> set (be_words buf)"
  shows "fix_verify buf siz cks ckx = Inr (Fixed, buf)"
    and "\<exists>r p q. checksum_std buf siz None None = Inr r \<and> o_cks r = Some p \<and> o_ckx r = Some q \<and>
           rd32 buf p = Inr cks \<and> rd32 buf q = Inr ckx"
proof -
  have t: "xor_words (be_words buf) = cks"
    "sum_list (be_words buf) - 2 * xor_words (be_words buf) = ckx"
    using assms(4) std_targets_words [OF assms(1,3)] by auto
  have c: "checksum_std buf siz None None = std_locate buf siz cks ckx None None"
    using checksum_std_words [OF assms(1-3)] t by simp
  from pick_last_found [OF assms(1,3,5), of None] obtain p where
    p: "pick_last cks (be_words buf) 0 None = Some p" "rd32 buf p = Inr cks" by blast
  from pick_last_found [OF assms(1,3,6), of None] obtain q where
    q: "pick_last ckx (be_words buf) 0 None = Some q" "rd32 buf q = Inr ckx" by blast
  show "fix_verify buf siz cks ckx = Inr (Fixed, buf)"
    by (simp add: fix_verify_def c std_locate_words [OF assms(1,3)] fbind_def rd_var_def p q)
  show "\<exists>r p q. checksum_std buf siz None None = Inr r \<and> o_cks r = Some p \<and> o_ckx r = Some q \<and>
           rd32 buf p = Inr cks \<and> rd32 buf q = Inr ckx"
    unfolding c std_locate_words [OF assms(1,3)] using p q by simp
qed


lemma xor_cancel: "x XOR (x XOR y) = y" for x y :: u32
  by (simp add: xor.assoc [symmetric])

lemma fix_core:
  assumes len: "int (length buf) = siz" "0 < siz" "siz mod 4 = 0"
    and idx: "ic < length buf div 4" "ix < length buf div 4" "ia < length buf div 4"
      "ib < length buf div 4" "im < length buf div 4"
    and dist: "distinct [ic, ix, ia, ib, im]"
    and par: "even (be_words buf ! ic) = even (be_words buf ! ix)"
  shows "\<exists>B'. checksum_fix buf siz (4 * int ic) (4 * int ix) (4 * int ia) (4 * int ib) (4 * int im)
             = Inr (Fixed, B') \<and>
           int (length B') = siz \<and>
           std_targets B' siz = Inr (be_words buf ! ic, be_words buf ! ix) \<and>
           (\<exists>r p q. checksum_std B' siz None None = Inr r \<and>
              o_cks r = Some p \<and> o_ckx r = Some q \<and>
              rd32 B' p = Inr (be_words buf ! ic) \<and> rd32 B' q = Inr (be_words buf ! ix))"
proof -
  define ws where "ws = be_words buf"
  define cks where "cks = ws ! ic"
  define ckx where "ckx = ws ! ix"
  define b1 where "b1 = write_32b 0 buf (4 * ia)"
  define b2 where "b2 = write_32b 0 b1 (4 * ib)"
  define b3 where "b3 = write_32b 0 b2 (4 * im)"
  define w3 where "w3 = ws[ia := 0, ib := 0, im := 0]"
  define S where "S = sum_list (w3[ic := 0, ix := 0])"
  define X where "X = xor_words (w3[ic := 0, ix := 0])"
  define mg where "mg = ckx XOR X"
  define a where "a = drop_bit 1 (cks - S - mg)"
  define b4 where "b4 = write_32b a b3 (4 * ia)"
  define b5 where "b5 = write_32b a b4 (4 * ib)"
  define b6 where "b6 = write_32b mg b5 (4 * im)"
  define w6 where "w6 = w3[ia := a, ib := a, im := mg]"
  have n: "length ws = length buf div 4" by (simp add: ws_def)
  have d: "ic \<noteq> ix" "ic \<noteq> ia" "ic \<noteq> ib" "ic \<noteq> im" "ix \<noteq> ia" "ix \<noteq> ib" "ix \<noteq> im"
    "ia \<noteq> ib" "ia \<noteq> im" "ib \<noteq> im"
    using dist by auto
  \<comment> \<open>the argument check passes\<close>
  have g: "\<not> (siz \<le> 0 \<or> siz AND 3 \<noteq> 0 \<or> 4 * int ic \<ge> siz \<or> 4 * int ix \<ge> siz \<or>
      4 * int ia \<ge> siz \<or> 4 * int ib \<ge> siz)"
    using len idx by (simp add: and_3_mod_4) presburger
  \<comment> \<open>the targets\<close>
  have r1: "rd32 buf (4 * int ic) = Inr cks" "rd32 buf (4 * int ix) = Inr ckx"
    using rd32_word [OF len(1,3)] idx by (simp_all add: cks_def ckx_def ws_def)
  \<comment> \<open>the three words set to zero\<close>
  have l1: "length b1 = length buf" "length b2 = length buf" "length b3 = length buf"
    by (simp_all add: b1_def b2_def b3_def)
  have z1: "wr32 0 buf (4 * int ia) = Inr b1"
    using wr32_word [OF len(1,3) idx(3)] by (simp add: b1_def)
  have z2: "wr32 0 b1 (4 * int ib) = Inr b2"
    using wr32_word [of b1 siz ib 0] len idx l1 by (simp add: b2_def)
  have z3: "wr32 0 b2 (4 * int im) = Inr b3"
    using wr32_word [of b2 siz im 0] len idx l1 by (simp add: b3_def)
  have bw3: "be_words b3 = w3"
    using idx l1
    by (simp add: b3_def b2_def b1_def w3_def ws_def be_words_write)
  \<comment> \<open>sum and xor of the rest\<close>
  have fs: "fix_sum b3 siz (4 * int ic) (4 * int ix) 0 0 0 = Inr (S, X)"
    using fix_sum_all [of b3 siz ic ix] len idx l1 by (simp add: S_def X_def bw3)
  have w3n: "w3 ! ic = cks" "w3 ! ix = ckx" "w3 ! ia = 0" "w3 ! ib = 0" "w3 ! im = 0"
    "length w3 = length buf div 4"
    using d idx n by (simp_all add: w3_def cks_def ckx_def)
  have S: "S = sum_list w3 - cks - ckx"
    using idx d w3n by (simp add: S_def sum_list_upd)
  have X: "X = xor_words w3 XOR cks XOR ckx"
    using idx d w3n by (simp add: X_def xor_words_upd ac_simps)
  \<comment> \<open>the solver\<close>
  from fix_solve_result [of cks ckx S X] obtain s where
    s: "fix_solve cks ckx S X = Some s" "s_mang s = mg" "s_a s = a" "s_b s = a"
    by (auto simp add: mg_def a_def)
  \<comment> \<open>the three words written\<close>
  have l4: "length b4 = length buf" "length b5 = length buf" "length b6 = length buf"
    by (simp_all add: b4_def b5_def b6_def l1)
  have y1: "wr32 a b3 (4 * int ia) = Inr b4"
    using wr32_word [of b3 siz ia a] len idx l1 by (simp add: b4_def)
  have y2: "wr32 a b4 (4 * int ib) = Inr b5"
    using wr32_word [of b4 siz ib a] len idx l4 by (simp add: b5_def)
  have y3: "wr32 mg b5 (4 * int im) = Inr b6"
    using wr32_word [of b5 siz im mg] len idx l4 by (simp add: b6_def)
  have bw6: "be_words b6 = w6"
    using idx l1 l4
    by (simp add: b6_def b5_def b4_def w6_def be_words_write bw3)
  \<comment> \<open>the fold of the result\<close>
  have sum6: "sum_list w6 = sum_list w3 + a + a + mg"
    using idx d w3n by (simp add: w6_def sum_list_upd)
  have xor6: "xor_words w6 = xor_words w3 XOR mg"
    using idx d w3n by (simp add: w6_def xor_words_upd ac_simps xor_cancel)
  have mg: "mg = xor_words w3 XOR cks"
    by (simp add: mg_def X ac_simps xor_cancel)
  have xo: "xor_words w6 = cks"
    by (simp add: xor6 mg xor_cancel)
  have "even S = even X"
    unfolding S_def X_def by (rule even_sum_xor)
  then have "even (cks - S - mg)"
    using par by (simp add: mg_def even_xor_iff cks_def ckx_def ws_def)
  then have aa: "a + a = cks - S - mg"
    unfolding a_def by (rule twice_half)
  have "sum_list w6 = sum_list w3 + (a + a) + mg" by (simp add: sum6)
  also have "\<dots> = cks + cks + ckx" unfolding aa S by simp
  finally have su: "sum_list w6 - 2 * cks = ckx" by simp
  have t6: "std_targets b6 siz = Inr (cks, ckx)"
    using std_targets_words [of b6 siz] len l4 by (simp add: bw6 xo su)
  have w6n: "w6 ! ic = cks" "w6 ! ix = ckx" "length w6 = length buf div 4"
    using d idx w3n by (simp_all add: w6_def)
  have m6: "cks \<in> set (be_words b6)" "ckx \<in> set (be_words b6)"
    using w6n idx unfolding bw6 by (metis nth_mem)+
  have len6: "int (length b6) = siz" using len l4 by simp
  note v = fix_verify_ok [OF len6 len(2,3) t6 m6]
  have "checksum_fix buf siz (4 * int ic) (4 * int ix) (4 * int ia) (4 * int ib) (4 * int im)
     = Inr (Fixed, b6)"
    unfolding checksum_fix_def using g
    by (simp only: if_False fbind_def r1 z1 z2 z3 fs sum.case prod.case s option.case
        y1 y2 y3 v(1))
  with len6 t6 v(2) show ?thesis
    by (auto simp add: cks_def ckx_def ws_def)
qed


lemma aligned_index:
  assumes "int (length buf) = siz" "siz mod 4 = 0" "0 \<le> p" "p < siz" "p mod 4 = 0"
  shows "\<exists>i < length buf div 4. p = 4 * int i"
proof -
  define i where "i = nat (p div 4)"
  have p: "p = 4 * int i" using assms(3,5) by (simp add: i_def) presburger
  have "int (length buf) mod 4 = 0" using assms(1,2) by simp
  then have "length buf mod 4 = 0" by presburger
  then have "length buf = 4 * (length buf div 4)" by presburger
  then have "siz = 4 * int (length buf div 4)" using assms(1) by presburger
  with p assms(4) have "i < length buf div 4" by simp
  with p show ?thesis by blast
qed

text \<open>
  The candidate values \<^verbatim>\<open>checksum_std\<close> derives from any image have the same parity, so
  no choice of correction words makes it derive two targets of different parity.
\<close>

lemma std_targets_parity:
  assumes "int (length buf) = siz" "siz mod 4 = 0" "std_targets buf siz = Inr (cks, ckx)"
  shows "even cks = even ckx"
proof -
  have "cks = xor_words (be_words buf)"
    "ckx = sum_list (be_words buf) - 2 * xor_words (be_words buf)"
    using assms(3) std_targets_words [OF assms(1,2)] by auto
  then show ?thesis by (simp add: even_sum_xor)
qed

text \<open>
  C1, amended. For a buffer whose length \<open>siz\<close> is a positive multiple of 4 and
  word-aligned, pairwise distinct offsets \<open>p_cks\<close>, \<open>p_ckx\<close>, \<open>p_cs\<close>, \<open>p_cx\<close>, \<open>p_mang\<close>
  below \<open>siz\<close>: when the two target words at \<open>p_cks\<close> and \<open>p_ckx\<close> have the same parity,
  \<^verbatim>\<open>checksum_fix\<close> completes with its verification passed, the sum and xor of the whole
  buffer after the three writes give back exactly the two targets as the candidate
  values of \<^verbatim>\<open>checksum_std\<close>, and \<^verbatim>\<open>checksum_std\<close> re-locates offsets whose words equal
  the targets.
\<close>

theorem fix_fold_identity:
  assumes "int (length buf) = siz" "0 < siz" "siz mod 4 = 0"
    and "\<forall>p \<in> set [p_cks, p_ckx, p_cs, p_cx, p_mang]. 0 \<le> p \<and> p < siz \<and> p mod 4 = 0"
    and "distinct [p_cks, p_ckx, p_cs, p_cx, p_mang]"
    and "rd32 buf p_cks = Inr cks" "rd32 buf p_ckx = Inr ckx"
    and "even cks = even ckx"
  shows "\<exists>B'. checksum_fix buf siz p_cks p_ckx p_cs p_cx p_mang = Inr (Fixed, B') \<and>
           std_targets B' siz = Inr (cks, ckx) \<and>
           (\<exists>r o_s o_x. checksum_std B' siz None None = Inr r \<and>
              o_cks r = Some o_s \<and> o_ckx r = Some o_x \<and>
              rd32 B' o_s = Inr cks \<and> rd32 B' o_x = Inr ckx)"
proof -
  note ai = aligned_index [OF assms(1,3)]
  from assms(4) ai [of p_cks] obtain ic where ic: "ic < length buf div 4" "p_cks = 4 * int ic"
    by auto
  from assms(4) ai [of p_ckx] obtain ix where ix: "ix < length buf div 4" "p_ckx = 4 * int ix"
    by auto
  from assms(4) ai [of p_cs] obtain ia where ia: "ia < length buf div 4" "p_cs = 4 * int ia"
    by auto
  from assms(4) ai [of p_cx] obtain ib where ib: "ib < length buf div 4" "p_cx = 4 * int ib"
    by auto
  from assms(4) ai [of p_mang] obtain im where im: "im < length buf div 4" "p_mang = 4 * int im"
    by auto
  have dist: "distinct [ic, ix, ia, ib, im]"
    using assms(5) ic(2) ix(2) ia(2) ib(2) im(2) by auto
  have c: "be_words buf ! ic = cks" "be_words buf ! ix = ckx"
    using assms(6,7) rd32_word [OF assms(1,3)] ic ix by auto
  have par: "even (be_words buf ! ic) = even (be_words buf ! ix)"
    using assms(8) c by simp
  from fix_core [OF assms(1-3) ic(1) ix(1) ia(1) ib(1) im(1) dist par]
  show ?thesis
    unfolding c ic(2) ix(2) ia(2) ib(2) im(2) by blast
qed

lemma fix_run_odd:
  "checksum_fix [0, 0, 0, 0, 0, 0, 0, 1, 0, 0, 0, 0, 0, 0, 0, 0, 0, 0, 0, 0] 20 0 4 8 12 16 =
     Inr (NotFixed,
       [0, 0, 0, 0, 0, 0, 0, 1, 0x7F, 0xFF, 0xFF, 0xFF, 0x7F, 0xFF, 0xFF, 0xFF, 0, 0, 0, 1]) \<and>
   rd32 [0, 0, 0, 0, 0, 0, 0, 1, 0, 0, 0, 0, 0, 0, 0, 0, 0, 0, 0, 0] 4 = Inr 1 \<and>
   checksum_std
     [0, 0, 0, 0, 0, 0, 0, 1, 0x7F, 0xFF, 0xFF, 0xFF, 0x7F, 0xFF, 0xFF, 0xFF, 0, 0, 0, 1] 20
     None None = Inr \<lparr>ret = 0, o_cks = Some 0, o_ckx = Some 0, warnings = []\<rparr> \<and>
   rd32 [0, 0, 0, 0, 0, 0, 0, 1, 0x7F, 0xFF, 0xFF, 0xFF, 0x7F, 0xFF, 0xFF, 0xFF, 0, 0, 0, 1] 0
     = Inr 0"
proof -
  let ?B = "[0, 0, 0, 0, 0, 0, 0, 1, 0, 0, 0, 0, 0, 0, 0, 0, 0, 0, 0, 0] :: u8 list"
  let ?B' = "[0, 0, 0, 0, 0, 0, 0, 1, 0x7F, 0xFF, 0xFF, 0xFF, 0x7F, 0xFF, 0xFF, 0xFF, 0, 0, 0, 1]
    :: u8 list"
  have fs: "fix_sum ?B 20 0 4 0 0 0 = Inr (0, 0)"
    by (simp add: fix_sum.simps rd32_def reconst_32_def)
  have so: "fix_solve 0 1 0 0 =
      Some \<lparr>s_ds = - 1, s_dx = 0, s_mang = 1, s_a = 0x7FFFFFFF, s_b = 0x7FFFFFFF,
        s_carry = True\<rparr>"
    by (simp add: fix_solve_def fix_loop.simps bit_step_def)
  have cs: "checksum_std ?B' 20 None None =
      Inr \<lparr>ret = 0, o_cks = Some 0, o_ckx = Some 0, warnings = []\<rparr>"
    by (simp add: checksum_std_def std_targets_def std_locate_def fbind_def std_sum.simps
        std_scan.simps rd32_def reconst_32_def Let_def)
  have r0: "rd32 ?B' 0 = Inr 0" by (simp add: rd32_def reconst_32_def)
  have fv: "fix_verify ?B' 20 0 1 = Inr (NotFixed, ?B')"
    by (simp add: fix_verify_def cs fbind_def rd_var_def r0)
  have r4: "rd32 ?B 4 = Inr 1" "rd32 ?B 0 = Inr 0" by (simp_all add: rd32_def reconst_32_def)
  have "checksum_fix ?B 20 0 4 8 12 16 = Inr (NotFixed, ?B')"
    by (simp add: checksum_fix_def fbind_def r4 wr32_def write_32b_def fs so fv)
  with r4 cs r0 show ?thesis by simp
qed


text \<open>
  C1, as stated, fails. With target words 0 at offset 0 and 1 at offset 4 (different
  parity) in an otherwise empty 20-byte buffer, \<^verbatim>\<open>checksum_fix\<close> completes without taking
  the infeasibility exit, writes \<open>a = b = 0x7FFFFFFF\<close> and \<open>mang = 1\<close>, and \<^verbatim>\<open>checksum_std\<close>
  on the result reports offset 0 for both values: the word there is 0, not the xor
  target 1. The function itself reports the failure.
\<close>

theorem fix_odd_counterexample:
  "checksum_fix [0, 0, 0, 0, 0, 0, 0, 1, 0, 0, 0, 0, 0, 0, 0, 0, 0, 0, 0, 0] 20 0 4 8 12 16 =
     Inr (NotFixed,
       [0, 0, 0, 0, 0, 0, 0, 1, 0x7F, 0xFF, 0xFF, 0xFF, 0x7F, 0xFF, 0xFF, 0xFF, 0, 0, 0, 1]) \<and>
   rd32 [0, 0, 0, 0, 0, 0, 0, 1, 0, 0, 0, 0, 0, 0, 0, 0, 0, 0, 0, 0] 4 = Inr 1 \<and>
   checksum_std
     [0, 0, 0, 0, 0, 0, 0, 1, 0x7F, 0xFF, 0xFF, 0xFF, 0x7F, 0xFF, 0xFF, 0xFF, 0, 0, 0, 1] 20
     None None = Inr \<lparr>ret = 0, o_cks = Some 0, o_ckx = Some 0, warnings = []\<rparr> \<and>
   rd32 [0, 0, 0, 0, 0, 0, 0, 1, 0x7F, 0xFF, 0xFF, 0xFF, 0x7F, 0xFF, 0xFF, 0xFF, 0, 0, 0, 1] 0
     = Inr 0"
  by (rule fix_run_odd)

theorem fix_fold_identity_witness:
  "rd32 [0, 0, 0, 5, 0, 0, 0, 3, 0, 0, 0, 0, 0, 0, 0, 0, 0, 0, 0, 0, 0, 0, 0, 9] 0 = Inr 5 \<and>
   rd32 [0, 0, 0, 5, 0, 0, 0, 3, 0, 0, 0, 0, 0, 0, 0, 0, 0, 0, 0, 0, 0, 0, 0, 9] 4 = Inr 3 \<and>
   (\<exists>B'. checksum_fix [0, 0, 0, 5, 0, 0, 0, 3, 0, 0, 0, 0, 0, 0, 0, 0, 0, 0, 0, 0, 0, 0, 0, 9]
            24 0 4 8 12 16 = Inr (Fixed, B') \<and>
          std_targets B' 24 = Inr (5, 3) \<and>
          (\<exists>r o_s o_x. checksum_std B' 24 None None = Inr r \<and>
              o_cks r = Some o_s \<and> o_ckx r = Some o_x \<and>
              rd32 B' o_s = Inr 5 \<and> rd32 B' o_x = Inr 3))"
proof -
  let ?B = "[0, 0, 0, 5, 0, 0, 0, 3, 0, 0, 0, 0, 0, 0, 0, 0, 0, 0, 0, 0, 0, 0, 0, 9] :: u8 list"
  have l: "int (length ?B) = 24" "(0::int) < 24" "(24::int) mod 4 = 0" by simp_all
  have p: "\<forall>p \<in> set [0, 4, 8, 12, 16 :: int]. 0 \<le> p \<and> p < 24 \<and> p mod 4 = 0" by simp
  have d: "distinct [0, 4, 8, 12, 16 :: int]" by simp
  have r: "rd32 ?B 0 = Inr 5" "rd32 ?B 4 = Inr 3" by (simp_all add: rd32_def reconst_32_def)
  have e: "even (5 :: u32) = even (3 :: u32)" by simp
  from fix_fold_identity [OF l p d r e] r show ?thesis by simp
qed

lemma fbind_Inr_iff: "fbind m f = Inr v \<longleftrightarrow> (\<exists>x. m = Inr x \<and> f x = Inr v)"
  by (cases m) (simp_all add: fbind_def)

text \<open>
  C4. The claim asks that no access of \<^verbatim>\<open>checksum_fix\<close> leaves the buffer, whatever the
  arguments. The argument check compares \<open>p_cks\<close>, \<open>p_ckx\<close>, \<open>p_cs\<close> and \<open>p_cx\<close> with
  \<open>siz\<close> and leaves \<open>p_mang\<close> out: with the other four offsets inside the buffer and
  \<open>p_mang\<close> outside, the write of line 118 is outside the buffer.
\<close>

theorem fix_mang_unchecked:
  assumes "int (length buf) = siz" "0 < siz" "siz mod 4 = 0"
    and "\<forall>p \<in> set [p_cks, p_ckx, p_cs, p_cx]. 0 \<le> p \<and> p + 4 \<le> siz"
    and "p_mang < 0 \<or> siz < p_mang + 4"
  shows "checksum_fix buf siz p_cks p_ckx p_cs p_cx p_mang = Inl OutOfBounds"
  using assms
  by (auto simp add: checksum_fix_def and_3_mod_4 fbind_def rd32_def wr32_def)

theorem fix_mang_unchecked_witness:
  "checksum_fix [0, 0, 0, 0, 0, 0, 0, 0, 0, 0, 0, 0, 0, 0, 0, 0, 0, 0, 0, 0] 20 0 4 8 12 20
     = Inl OutOfBounds"
proof -
  let ?B = "[0, 0, 0, 0, 0, 0, 0, 0, 0, 0, 0, 0, 0, 0, 0, 0, 0, 0, 0, 0] :: u8 list"
  have l: "int (length ?B) = 20" "(0::int) < 20" "(20::int) mod 4 = 0" by simp_all
  have p: "\<forall>p \<in> set [0, 4, 8, 12 :: int]. 0 \<le> p \<and> p + 4 \<le> 20" by simp
  have m: "(20::int) < 0 \<or> (20::int) < 20 + 4" by simp
  from fix_mang_unchecked [OF l p m] show ?thesis .
qed

section \<open>The RAMF sweep and the alternate checksum\<close>

lemma sweep_tail:
  "3 \<le> k \<Longrightarrow>
     ramf_sweep buf p h m (4 * int k) 1 =
       Some (probe_in_order buf p h (map (\<lambda>k. 4 * int k) [k..<nat ((m + 3) div 4)]))"
proof (induction "nat ((m + 3) div 4) - k" arbitrary: k)
  case 0
  then have "\<not> 4 * int k < m" by linarith
  moreover have "[k..<nat ((m + 3) div 4)] = []" using 0 by simp
  ultimately show ?case by (subst ramf_sweep.simps) simp
next
  case (Suc n)
  then have lt: "4 * int k < m" by linarith
  have k: "k < nat ((m + 3) div 4)" using Suc by simp
  have u: "[k..<nat ((m + 3) div 4)] = k # [Suc k..<nat ((m + 3) div 4)]"
    using k by (simp add: upt_conv_Cons)
  have s4: "4 * int k + 4 = 4 * int (Suc k)" by simp
  have ih: "ramf_sweep buf p h m (4 * int (Suc k)) 1 =
       Some (probe_in_order buf p h (map (\<lambda>k. 4 * int k) [Suc k..<nat ((m + 3) div 4)]))"
    using Suc.hyps(1) [of "Suc k"] Suc.hyps(2) Suc.prems by simp
  have ge: "\<not> 4 * int k < 12" using Suc.prems by simp
  have step: "ramf_sweep buf p h m (4 * int k) 1 =
      (case rd32 buf (uint p + 1 * (4 * int k)) of
         Inl e \<Rightarrow> Some (Inl e)
       | Inr w \<Rightarrow> if w = h then Some (Inr (Some (1 * (4 * int k))))
                 else ramf_sweep buf p h m (4 * int k + 4) 1)"
    by (subst ramf_sweep.simps) (simp only: lt ge if_True if_False)
  show ?case
    unfolding step s4 ih u by (simp split: sum.splits)
qed


lemma sweep_stop:
  "\<not> adj < m \<Longrightarrow> ramf_sweep buf p h m adj sg = Some (Inr None)"
  by (subst ramf_sweep.simps) simp

lemma sweep_step_pos:
  "adj < 12 \<Longrightarrow> adj < m \<Longrightarrow>
     ramf_sweep buf p h m adj 1 =
       (case rd32 buf (uint p + adj) of
          Inl e \<Rightarrow> Some (Inl e)
        | Inr w \<Rightarrow> if w = h then Some (Inr (Some adj)) else ramf_sweep buf p h m adj (- 1))"
  by (subst ramf_sweep.simps) (simp split: sum.splits)

lemma sweep_step_neg:
  "adj < 12 \<Longrightarrow> adj < m \<Longrightarrow>
     ramf_sweep buf p h m adj (- 1) =
       (case rd32 buf (uint p + - adj) of
          Inl e \<Rightarrow> Some (Inl e)
        | Inr w \<Rightarrow> if w = h then Some (Inr (Some (- adj))) else ramf_sweep buf p h m (adj + 4) 1)"
  by (subst ramf_sweep.simps) (simp split: sum.splits)

lemma filter_tail:
  "filter (\<lambda>d. \<bar>d\<bar> < m) (map (\<lambda>k. 4 * int k) [k..<nat ((m + 3) div 4)]) =
     map (\<lambda>k. 4 * int k) [k..<nat ((m + 3) div 4)]"
proof (rule filter_True, clarsimp)
  fix j assume "j < nat ((m + 3) div 4)"
  then show "4 * int j < m" by linarith
qed

lemma sweep_order:
  "ramf_sweep buf p h m 4 1 = Some (probe_in_order buf p h (sweep_probes m))"
proof -
  consider "m \<le> 4" | "4 < m" "m \<le> 8" | "8 < m" by linarith
  then show ?thesis
  proof cases
    case 1
    then have "nat ((m + 3) div 4) \<le> 1" by linarith
    then have "[3..<nat ((m + 3) div 4)] = []" by simp
    then have "sweep_probes m = []" using 1 by (simp add: sweep_probes_def)
    then show ?thesis using 1 by (simp add: sweep_stop)
  next
    case 2
    then have "nat ((m + 3) div 4) \<le> 2" by linarith
    then have "[3..<nat ((m + 3) div 4)] = []" by simp
    then have l: "sweep_probes m = [4, - 4]" using 2 by (simp add: sweep_probes_def)
    have "ramf_sweep buf p h m (4 + 4) 1 = Some (Inr None)"
      using 2 by (intro sweep_stop) simp
    then show ?thesis
      unfolding l using 2
      by (simp add: sweep_step_pos sweep_step_neg split: sum.splits)
  next
    case 3
    have l: "sweep_probes m =
        [4, - 4, 8, - 8] @ map (\<lambda>k. 4 * int k) [3..<nat ((m + 3) div 4)]"
      using 3 by (simp add: sweep_probes_def filter_tail)
    have t: "ramf_sweep buf p h m (8 + 4) 1 =
        Some (probe_in_order buf p h (map (\<lambda>k. 4 * int k) [3..<nat ((m + 3) div 4)]))"
      using sweep_tail [of 3 buf p h m] by simp
    have a: "ramf_sweep buf p h m 4 1 =
       (case rd32 buf (uint p + 4) of
          Inl e \<Rightarrow> Some (Inl e)
        | Inr w \<Rightarrow> if w = h then Some (Inr (Some 4)) else ramf_sweep buf p h m 4 (- 1))"
      using 3 by (intro sweep_step_pos) simp_all
    have b: "ramf_sweep buf p h m 4 (- 1) =
       (case rd32 buf (uint p + - 4) of
          Inl e \<Rightarrow> Some (Inl e)
        | Inr w \<Rightarrow> if w = h then Some (Inr (Some (- 4))) else ramf_sweep buf p h m (4 + 4) 1)"
      using 3 by (intro sweep_step_neg) simp_all
    have c: "ramf_sweep buf p h m (4 + 4) 1 =
       (case rd32 buf (uint p + (4 + 4)) of
          Inl e \<Rightarrow> Some (Inl e)
        | Inr w \<Rightarrow> if w = h then Some (Inr (Some (4 + 4))) else ramf_sweep buf p h m (4 + 4) (- 1))"
      using 3 by (intro sweep_step_pos) simp_all
    have d: "ramf_sweep buf p h m (4 + 4) (- 1) =
       (case rd32 buf (uint p + - (4 + 4)) of
          Inl e \<Rightarrow> Some (Inl e)
        | Inr w \<Rightarrow> if w = h then Some (Inr (Some (- (4 + 4))))
                  else ramf_sweep buf p h m (4 + 4 + 4) 1)"
      using 3 by (intro sweep_step_neg) simp_all
    show ?thesis
      unfolding l a b c d using t
      by (simp split: sum.splits)
  qed
qed


text \<open>
  The two early returns of \<^verbatim>\<open>find_ramf\<close>, where no word of the image is probed: without
  a known descriptor or a known \<open>p_fid\<close> it returns \<open>- 1\<close> and changes nothing; with a
  descriptor that has no RAMF header and no ECUREC feature it sets \<open>p_ramf\<close> and returns 0.
\<close>

lemma find_ramf_unknown:
  "rf_fid_ic rf = FID_UNK \<or> rf_fid_ic rf \<ge> FID_MAX \<or> rf_p_fid rf = - 1 \<Longrightarrow>
     find_ramf_header FID_UNK FID_MAX rf = Some (Inr (Returned (- 1) rf))"
  by (simp add: find_ramf_header_def)

lemma find_ramf_no_header:
  "rf_fid_ic rf \<noteq> FID_UNK \<Longrightarrow> rf_fid_ic rf < FID_MAX \<Longrightarrow> rf_p_fid rf \<noteq> - 1 \<Longrightarrow>
   ft_RAMF_header (rf_fidtype rf) = 0 \<Longrightarrow> ROM_HAS_ECUREC \<notin> ft_features (rf_fidtype rf) \<Longrightarrow>
     find_ramf_header FID_UNK FID_MAX rf =
       Some (Inr (Returned 0 (rf\<lparr>rf_p_ramf := rf_p_fid rf + rf_sfid_size rf\<rparr>)))"
  by (simp add: find_ramf_header_def Let_def)

text \<open>
  C8, as stated, fails: the loop never probes \<open>-12\<close>. With the header 12 bytes before the
  expected position and nowhere else, and a maximum distance of 16, the claimed order
  finds it at delta \<open>-12\<close>, while \<^verbatim>\<open>find_ramf\<close> finds nothing and leaves \<open>p_ramf\<close> and
  \<open>ramf_offset\<close> as they were. The descriptor is a known one (\<open>fid_ic\<close> is 0; the values
  of the enumerators \<open>FID_UNK\<close> and \<open>FID_MAX\<close> are taken as 1 and 2) with the header
  \<^verbatim>\<open>0xFFFF8000\<close>, and \<open>p_fid\<close> is 0, so that the search is reached.
\<close>

theorem ramf_sweep_claimed_order_counterexample:
  "probe_in_order
     
     [0xFF, 0xFF, 0x80, 0, 0, 0, 0, 0, 0, 0, 0, 0, 0, 0, 0, 0, 0, 0, 0, 0,
      0, 0, 0, 0, 0, 0, 0, 0] 12 0xFFFF8000 (claimed_probes 16)
     = Inr (Some (- 12)) \<and>
   find_ramf_header 1 2
     (fresh_rom 
     [0xFF, 0xFF, 0x80, 0, 0, 0, 0, 0, 0, 0, 0, 0, 0, 0, 0, 0, 0, 0, 0, 0,
      0, 0, 0, 0, 0, 0, 0, 0]
        (ramf_fidtype {} 0xFFFF8000 16) 0 12)
     = Some (Inr (Proceed ((fresh_rom 
     [0xFF, 0xFF, 0x80, 0, 0, 0, 0, 0, 0, 0, 0, 0, 0, 0, 0, 0, 0, 0, 0, 0,
      0, 0, 0, 0, 0, 0, 0, 0]
        (ramf_fidtype {} 0xFFFF8000 16) 0 12)
          \<lparr>rf_p_ramf := 12\<rparr>)))"
proof -
  let ?B = "[0xFF, 0xFF, 0x80, 0, 0, 0, 0, 0, 0, 0, 0, 0, 0, 0, 0, 0, 0, 0, 0, 0,
      0, 0, 0, 0, 0, 0, 0, 0] :: u8 list"
  have r: "rd32 ?B 0 = Inr 0xFFFF8000" "rd32 ?B 4 = Inr 0" "rd32 ?B 8 = Inr 0"
    "rd32 ?B 12 = Inr 0" "rd32 ?B 16 = Inr 0" "rd32 ?B 20 = Inr 0" "rd32 ?B 24 = Inr 0"
    by (simp_all add: rd32_def reconst_32_def)
  have c: "claimed_probes 16 = [4, - 4, 8, - 8, 12, - 12]"
    by (simp add: claimed_probes_def)
  have s: "sweep_probes 16 = [4, - 4, 8, - 8, 12]"
    by (simp add: sweep_probes_def upt_rec)
  have 1: "probe_in_order ?B 12 0xFFFF8000 (claimed_probes 16) = Inr (Some (- 12))"
    unfolding c by (simp add: r)
  have 2: "probe_in_order ?B 12 0xFFFF8000 (sweep_probes 16) = Inr None"
    unfolding s by (simp add: r)
  have 3: "ramf_sweep ?B 12 0xFFFF8000 16 4 1 = Some (Inr None)"
    unfolding sweep_order 2 ..
  show ?thesis
    by (simp only: 1 simp_thms)
      (simp add: find_ramf_header_def fresh_rom_def ramf_fidtype_def Let_def r 3)
qed

text \<open>
  C8, amended. When \<^verbatim>\<open>find_ramf\<close> gets as far as the search (the descriptor is a known
  one, \<open>p_fid\<close> is known and the descriptor has a non-zero RAMF header) and the word at
  \<open>p_ramf = p_fid + sfid_size\<close> is not the expected header,
  it probes the deltas \<open>+4, -4, +8, -8\<close> and then \<open>+12, +16, +20, ...\<close>, each of
  magnitude below \<open>pRAMF_maxdist\<close>, in this order; at the first probe whose word equals
  the header it records that delta as \<open>ramf_offset\<close> and adds it to \<open>p_ramf\<close>, and when
  no probe matches it leaves both unchanged. The search always ends.
\<close>

theorem ramf_sweep_order:
  assumes "rf_fid_ic rf \<noteq> FID_UNK" and "rf_fid_ic rf < FID_MAX" and "rf_p_fid rf \<noteq> - 1"
    and "ft_RAMF_header (rf_fidtype rf) \<noteq> 0"
    and "rd32 (rf_buf rf) (uint (rf_p_fid rf + rf_sfid_size rf)) = Inr w"
    and "w \<noteq> ft_RAMF_header (rf_fidtype rf)"
  shows "find_ramf_header FID_UNK FID_MAX rf =
     Some (case probe_in_order (rf_buf rf) (rf_p_fid rf + rf_sfid_size rf)
                  (ft_RAMF_header (rf_fidtype rf))
                  (sweep_probes (ft_pRAMF_maxdist (rf_fidtype rf))) of
             Inl e \<Rightarrow> Inl e
           | Inr None \<Rightarrow> Inr (Proceed (rf\<lparr>rf_p_ramf := rf_p_fid rf + rf_sfid_size rf\<rparr>))
           | Inr (Some d) \<Rightarrow>
               Inr (Proceed (rf\<lparr>rf_p_ramf := rf_p_fid rf + rf_sfid_size rf + word_of_int d,
                                rf_ramf_offset := d\<rparr>)))"
  using assms
  by (simp add: find_ramf_header_def Let_def sweep_order split: sum.splits option.splits)

theorem ramf_sweep_order_witness:
  "find_ramf_header 1 2
     (fresh_rom 
     [0, 0, 0, 0, 0, 0, 0, 0, 0, 0, 0, 0, 0, 0, 0, 0, 0, 0, 0, 0,
      0xFF, 0xFF, 0x80, 0, 0, 0, 0, 0]
        (ramf_fidtype {} 0xFFFF8000 16) 0 12)
     = Some (Inr (Proceed ((fresh_rom 
     [0, 0, 0, 0, 0, 0, 0, 0, 0, 0, 0, 0, 0, 0, 0, 0, 0, 0, 0, 0,
      0xFF, 0xFF, 0x80, 0, 0, 0, 0, 0]
        (ramf_fidtype {} 0xFFFF8000 16) 0 12)
          \<lparr>rf_p_ramf := 20, rf_ramf_offset := 8\<rparr>)))"
proof -
  let ?B = "[0, 0, 0, 0, 0, 0, 0, 0, 0, 0, 0, 0, 0, 0, 0, 0, 0, 0, 0, 0,
      0xFF, 0xFF, 0x80, 0, 0, 0, 0, 0] :: u8 list"
  let ?rf = "fresh_rom ?B
        (ramf_fidtype {} 0xFFFF8000 16) 0 12"
  have r: "rd32 ?B 8 = Inr 0" "rd32 ?B 12 = Inr 0" "rd32 ?B 16 = Inr 0"
    "rd32 ?B 20 = Inr 0xFFFF8000"
    by (simp_all add: rd32_def reconst_32_def)
  have s: "sweep_probes 16 = [4, - 4, 8, - 8, 12]"
    by (simp add: sweep_probes_def upt_rec)
  have h: "rf_fid_ic ?rf \<noteq> 1" "rf_fid_ic ?rf < 2" "rf_p_fid ?rf \<noteq> - 1"
    "ft_RAMF_header (rf_fidtype ?rf) \<noteq> 0"
    "rd32 (rf_buf ?rf) (uint (rf_p_fid ?rf + rf_sfid_size ?rf)) = Inr 0"
    "(0 :: u32) \<noteq> ft_RAMF_header (rf_fidtype ?rf)"
    by (simp_all add: fresh_rom_def ramf_fidtype_def r)
  from ramf_sweep_order [OF h] show ?thesis
    by (simp add: fresh_rom_def ramf_fidtype_def s r)
qed

lemma u32memstr_from_found:
  "u32memstr_from buf buflen needle cur = Inr (Some a) \<Longrightarrow>
     a + 4 \<le> buflen \<and> rd32 buf (int a) = Inr needle"
proof (induction buf buflen needle cur rule: u32memstr_from.induct)
  case (1 buf buflen needle cur)
  show ?case
  proof (cases "cur + 4 \<le> buflen")
    case False
    with "1.prems" show ?thesis by (subst (asm) u32memstr_from.simps) simp
  next
    case True
    from "1.prems" True obtain w where w: "rd32 buf (int cur) = Inr w"
      by (subst (asm) u32memstr_from.simps) (auto split: sum.splits)
    show ?thesis
    proof (cases "w = needle")
      case True
      with "1.prems" \<open>cur + 4 \<le> buflen\<close> w show ?thesis
        by (subst (asm) u32memstr_from.simps) simp
    next
      case False
      with "1.prems" True w have "u32memstr_from buf buflen needle (cur + 4) = Inr (Some a)"
        by (subst (asm) u32memstr_from.simps) simp
      from "1.IH" [OF True w False this] show ?thesis .
    qed
  qed
qed

lemma u32memstr_found:
  "u32memstr buf buflen needle = Inr (Some a) \<Longrightarrow>
     a + 4 \<le> buflen \<and> rd32 buf (int a) = Inr needle"
  unfolding u32memstr_def by (rule u32memstr_from_found)

lemma uint_of_nat_small:
  "a + 4 \<le> unat (n :: u32) \<Longrightarrow> uint (of_nat a :: u32) = int a"
proof -
  assume "a + 4 \<le> unat n"
  moreover have "unat n < 2 ^ 32" using unsigned_less [of n] by simp
  ultimately have "a < 2 ^ 32" by linarith
  then have "take_bit 32 a = a" by (simp add: take_bit_nat_eq_self)
  then show ?thesis by (simp add: unsigned_of_nat)
qed

lemma validate_altcks_good:
  assumes "validate_altcks rf = Inr (r, rf')" "\<not> rf_cks_alt_good rf" "rf_cks_alt_good rf'"
  shows "\<exists>acs acx a c.
     sum32 (rf_buf rf) (unat (rf_p_acstart rf))
       (unat ((((rf_p_acend rf + 1) - rf_p_acstart rf) AND NOT 3) + 4)) = Inr (acs, acx) \<and>
     u32memstr (rf_buf rf) (unat (rf_siz rf)) acs = Inr (Some a) \<and>
     u32memstr (rf_buf rf) (unat (rf_siz rf)) acx = Inr (Some c) \<and>
     rf' = rf\<lparr>rf_p_acs := of_nat a, rf_p_acx := of_nat c, rf_cks_alt_good := True\<rparr>"
proof -
  have g1: "\<not> ROM_HAS_ALTCKS \<notin> ft_features (rf_fidtype rf)"
  proof
    assume "ROM_HAS_ALTCKS \<notin> ft_features (rf_fidtype rf)"
    then have "validate_altcks rf = Inr (- 1, rf)" by (simp add: validate_altcks_def)
    with assms show False by auto
  qed
  have g2: "\<not> (rf_p_acstart rf = - 1 \<or> rf_p_acend rf = - 1 \<or>
      rf_p_acstart rf \<ge> rf_p_acend rf)"
  proof
    assume "rf_p_acstart rf = - 1 \<or> rf_p_acend rf = - 1 \<or>
      rf_p_acstart rf \<ge> rf_p_acend rf"
    then have "validate_altcks rf = Inr (- 1, rf)" using g1 by (simp add: validate_altcks_def)
    with assms show False by auto
  qed
  let ?bs = "(((rf_p_acend rf + 1) - rf_p_acstart rf) AND NOT 3) + 4"
  have e: "fbind (sum32 (rf_buf rf) (unat (rf_p_acstart rf)) (unat ?bs)) (\<lambda>(acs, acx).
         fbind (u32memstr (rf_buf rf) (unat (rf_siz rf)) acs) (\<lambda>pacs.
         fbind (u32memstr (rf_buf rf) (unat (rf_siz rf)) acx) (\<lambda>pacx.
           (case (pacs, pacx) of
              (Some a, Some b) \<Rightarrow>
                Inr (0, rf\<lparr>rf_p_acs := of_nat a, rf_p_acx := of_nat b,
                           rf_cks_alt_good := True\<rparr>)
            | _ \<Rightarrow> Inr (- 1, rf))))) = Inr (r, rf')"
    using assms(1) g1 g2 unfolding validate_altcks_def Let_def by (simp only: if_False)
  then obtain acs acx where s: "sum32 (rf_buf rf) (unat (rf_p_acstart rf)) (unat ?bs) = Inr (acs, acx)"
    and e2: "fbind (u32memstr (rf_buf rf) (unat (rf_siz rf)) acs) (\<lambda>pacs.
         fbind (u32memstr (rf_buf rf) (unat (rf_siz rf)) acx) (\<lambda>pacx.
           (case (pacs, pacx) of
              (Some a, Some b) \<Rightarrow>
                Inr (0, rf\<lparr>rf_p_acs := of_nat a, rf_p_acx := of_nat b,
                           rf_cks_alt_good := True\<rparr>)
            | _ \<Rightarrow> Inr (- 1, rf)))) = Inr (r, rf')"
    unfolding fbind_Inr_iff [of "sum32 _ _ _"] by (auto simp add: split_def)
  from e2 have "\<exists>pacs. u32memstr (rf_buf rf) (unat (rf_siz rf)) acs = Inr pacs"
    by (cases "u32memstr (rf_buf rf) (unat (rf_siz rf)) acs") (simp_all add: fbind_def)
  then obtain pacs where ma: "u32memstr (rf_buf rf) (unat (rf_siz rf)) acs = Inr pacs" ..
  from e2 have e2': "fbind (u32memstr (rf_buf rf) (unat (rf_siz rf)) acx) (\<lambda>pacx.
           (case (pacs, pacx) of
              (Some a, Some b) \<Rightarrow>
                Inr (0, rf\<lparr>rf_p_acs := of_nat a, rf_p_acx := of_nat b,
                           rf_cks_alt_good := True\<rparr>)
            | _ \<Rightarrow> Inr (- 1, rf))) = Inr (r, rf')"
    unfolding ma by (simp add: fbind_def)
  then have "\<exists>pacx. u32memstr (rf_buf rf) (unat (rf_siz rf)) acx = Inr pacx"
    by (cases "u32memstr (rf_buf rf) (unat (rf_siz rf)) acx") (simp_all add: fbind_def)
  then obtain pacx where mc: "u32memstr (rf_buf rf) (unat (rf_siz rf)) acx = Inr pacx" ..
  from e2' have e3: "(case (pacs, pacx) of
              (Some a, Some b) \<Rightarrow>
                Inr (0, rf\<lparr>rf_p_acs := of_nat a, rf_p_acx := of_nat b,
                           rf_cks_alt_good := True\<rparr>)
            | _ \<Rightarrow> Inr (- 1, rf)) = (Inr (r, rf') :: fault + int \<times> romfile)"
    unfolding mc by (simp add: fbind_def)
  from e3 assms(2,3) obtain a c where "pacs = Some a" "pacx = Some c"
    "rf' = rf\<lparr>rf_p_acs := of_nat a, rf_p_acx := of_nat c, rf_cks_alt_good := True\<rparr>"
    by (cases pacs; cases pacx) auto
  with s ma mc show ?thesis by blast
qed

text \<open>
  C9. Whenever the stage sets \<open>cks_alt_good\<close> (it was clear before and is set after),
  \<open>p_acstart < p_acend < siz\<close>, and the sum and xor that \<^verbatim>\<open>sum32\<close> gives for the block
  starting at \<open>p_acstart\<close> of \<open>(((p_acend + 1) - p_acstart) & ~3) + 4\<close> bytes are the words
  stored at the recorded offsets \<open>p_acs\<close> and \<open>p_acx\<close>.
\<close>

theorem altcks_invariant:
  assumes "\<not> rf_cks_alt_good rf"
    and "find_ramf_altcks rf = Inr rf'"
    and "rf_cks_alt_good rf'"
  shows "rf_p_acstart rf' < rf_p_acend rf' \<and> rf_p_acend rf' < rf_siz rf' \<and>
     (\<exists>acs acx.
        sum32 (rf_buf rf') (unat (rf_p_acstart rf'))
          (unat ((((rf_p_acend rf' + 1) - rf_p_acstart rf') AND NOT 3) + 4)) = Inr (acs, acx) \<and>
        rd32 (rf_buf rf') (uint (rf_p_acs rf')) = Inr acs \<and>
        rd32 (rf_buf rf') (uint (rf_p_acx rf')) = Inr acx)"
proof -
  have f: "ROM_HAS_ALTCKS \<in> ft_features (rf_fidtype rf)"
    using assms by (auto simp add: find_ramf_altcks_def split: if_splits)
  have b: "\<not> (rf_p_acstart rf \<ge> rf_siz rf \<or> rf_p_acend rf \<ge> rf_siz rf \<or>
       rf_p_acstart rf \<ge> rf_p_acend rf)"
  proof
    assume "rf_p_acstart rf \<ge> rf_siz rf \<or> rf_p_acend rf \<ge> rf_siz rf \<or>
       rf_p_acstart rf \<ge> rf_p_acend rf"
    then have "find_ramf_altcks rf = Inr (rf\<lparr>rf_p_acstart := - 1, rf_p_acend := - 1\<rparr>)"
      using f by (simp add: find_ramf_altcks_def)
    with assms show False by auto
  qed
  have "find_ramf_altcks rf =
     (if rf_p_acstart rf \<noteq> - 1 then fbind (validate_altcks rf) (\<lambda>(r, rf2). Inr rf2)
      else Inr rf)"
    using f b by (simp add: find_ramf_altcks_def)
  with assms obtain r where v: "validate_altcks rf = Inr (r, rf')"
    by (auto simp add: fbind_Inr_iff split: if_splits)
  from validate_altcks_good [OF v assms(1,3)] obtain acs acx a c where
    s: "sum32 (rf_buf rf) (unat (rf_p_acstart rf))
       (unat ((((rf_p_acend rf + 1) - rf_p_acstart rf) AND NOT 3) + 4)) = Inr (acs, acx)"
    and ma: "u32memstr (rf_buf rf) (unat (rf_siz rf)) acs = Inr (Some a)"
    and mc: "u32memstr (rf_buf rf) (unat (rf_siz rf)) acx = Inr (Some c)"
    and rf': "rf' = rf\<lparr>rf_p_acs := of_nat a, rf_p_acx := of_nat c, rf_cks_alt_good := True\<rparr>"
    by blast
  from u32memstr_found [OF ma] have a: "a + 4 \<le> unat (rf_siz rf)" "rd32 (rf_buf rf) (int a) = Inr acs"
    by simp_all
  from u32memstr_found [OF mc] have c: "c + 4 \<le> unat (rf_siz rf)" "rd32 (rf_buf rf) (int c) = Inr acx"
    by simp_all
  show ?thesis
    using b s a c by (simp add: rf' uint_of_nat_small not_le)
qed


lemma reconst_32_slice:
  "4 * i + 4 \<le> len \<Longrightarrow> start + len \<le> length buf \<Longrightarrow>
     reconst_32 (take len (drop start buf)) (4 * i) = reconst_32 buf (start + 4 * i)"
  by (simp add: reconst_32_def add.assoc)

lemma sum32_from_words:
  assumes "start + len \<le> length buf"
  shows "k \<le> len div 4 \<Longrightarrow>
     sum32_from buf start len (4 * k) s x =
       Inr (s + sum_list (drop k (be_words (take len (drop start buf)))),
            x XOR xor_words (drop k (be_words (take len (drop start buf)))))"
proof (induction "len div 4 - k" arbitrary: k s x)
  case 0
  then have k: "k = len div 4" by simp
  then have "\<not> 4 * k + 4 \<le> len" by presburger
  then have "sum32_from buf start len (4 * k) s x = Inr (s, x)"
    by (subst sum32_from.simps) simp
  moreover have "length (be_words (take len (drop start buf))) = len div 4"
    using assms by simp
  ultimately show ?case using k by simp
next
  case (Suc n)
  let ?ws = "be_words (take len (drop start buf))"
  from Suc have k: "k < len div 4" by simp
  then have lt: "4 * k + 4 \<le> len" by presburger
  have n: "length ?ws = len div 4" using assms by simp
  have w: "?ws ! k = reconst_32 buf (start + 4 * k)"
    using k lt assms by (simp add: nth_be_words reconst_32_slice)
  have r: "rd32 buf (int (start + 4 * k)) = Inr (?ws ! k)"
    using lt assms by (simp add: rd32_def w nat_add_distrib nat_mult_distrib)
  then have r': "rd32 buf (int start + 4 * int k) = Inr (?ws ! k)" by simp
  have d: "drop k ?ws = ?ws ! k # drop (Suc k) ?ws"
    using k n by (simp add: Cons_nth_drop_Suc)
  have s4: "4 * k + 4 = 4 * Suc k" by simp
  have "sum32_from buf start len (4 * k) s x =
      sum32_from buf start len (4 * k + 4) (s + ?ws ! k) (x XOR ?ws ! k)"
    by (subst sum32_from.simps) (simp add: lt r')
  also have "\<dots> = Inr (s + ?ws ! k + sum_list (drop (Suc k) ?ws),
      (x XOR ?ws ! k) XOR xor_words (drop (Suc k) ?ws))"
    unfolding s4 using Suc.hyps(1) [of "Suc k"] Suc.hyps(2) k by simp
  finally show ?case by (simp add: d ac_simps)
qed

lemma sum32_words:
  "start + len \<le> length buf \<Longrightarrow>
     sum32 buf start len =
       Inr (sum_list (be_words (take len (drop start buf))),
            xor_words (be_words (take len (drop start buf))))"
  using sum32_from_words [of start len buf 0 0 0] by (simp add: sum32_def)

theorem altcks_invariant_witness:
  "find_ramf_altcks
     ((fresh_rom [0, 0, 0, 1, 0, 0, 0, 2, 0, 0, 0, 3, 0, 0, 0, 0]
         (ramf_fidtype {ROM_HAS_ALTCKS} 0xFFFF8000 16)
         0 0) \<lparr>rf_p_acstart := 0, rf_p_acend := 3\<rparr>)
     = Inr ((fresh_rom [0, 0, 0, 1, 0, 0, 0, 2, 0, 0, 0, 3, 0, 0, 0, 0]
         (ramf_fidtype {ROM_HAS_ALTCKS} 0xFFFF8000 16)
         0 0) \<lparr>rf_p_acstart := 0, rf_p_acend := 3, rf_p_acs := 8, rf_p_acx := 8,
               rf_cks_alt_good := True\<rparr>) \<and>
   sum32 [0, 0, 0, 1, 0, 0, 0, 2, 0, 0, 0, 3, 0, 0, 0, 0] 0 8 = Inr (3, 3) \<and>
   rd32 [0, 0, 0, 1, 0, 0, 0, 2, 0, 0, 0, 3, 0, 0, 0, 0] 8 = Inr 3"
proof -
  let ?B = "[0, 0, 0, 1, 0, 0, 0, 2, 0, 0, 0, 3, 0, 0, 0, 0] :: u8 list"
  let ?rf = "(fresh_rom ?B
         (ramf_fidtype {ROM_HAS_ALTCKS} 0xFFFF8000 16)
         0 0) \<lparr>rf_p_acstart := 0, rf_p_acend := 3\<rparr>"
  have r: "rd32 ?B 0 = Inr 1" "rd32 ?B 4 = Inr 2" "rd32 ?B 8 = Inr 3"
    by (simp_all add: rd32_def reconst_32_def)
  have bs: "unat ((((3 :: u32) + 1 - 0) AND NOT 3) + 4) = 8" by simp
  have s: "sum32 ?B 0 8 = Inr (3, 3)"
    by (simp add: sum32_def sum32_from.simps r)
  have m: "u32memstr ?B 16 3 = Inr (Some 8)"
    by (simp add: u32memstr_def u32memstr_from.simps r)
  have v: "validate_altcks ?rf =
      Inr (0, ?rf\<lparr>rf_p_acs := 8, rf_p_acx := 8, rf_cks_alt_good := True\<rparr>)"
    by (simp add: validate_altcks_def fresh_rom_def ramf_fidtype_def Let_def fbind_def bs s m)
  have f: "find_ramf_altcks ?rf =
      Inr (?rf\<lparr>rf_p_acs := 8, rf_p_acx := 8, rf_cks_alt_good := True\<rparr>)"
    by (simp add: find_ramf_altcks_def Let_def v fbind_def)
      (simp add: fresh_rom_def ramf_fidtype_def)
  have g: "\<not> rf_cks_alt_good ?rf" by (simp add: fresh_rom_def)
  from altcks_invariant [OF g f] f s r show ?thesis by simp
qed

end
